theory Spec2Isabelle
  imports Complex_Main "HOL-Library.AList"
begin

section \<open>Strings\<close>

text \<open>
  A JavaScript string is modelled as a \<open>string\<close> whose characters are the UTF-16 code
  units below 256 (the Latin-1 range). In that range the white space of \<open>trim()\<close> and of
  the regular expression class \<open>\s\<close> is TAB, LF, VT, FF, CR, SPACE and NBSP.
\<close>

definition is_space :: "char \<Rightarrow> bool" where
  "is_space c = (c \<in> set [CHR 0x09, CHR 0x0A, CHR 0x0B, CHR 0x0C, CHR 0x0D, CHR 0x20, CHR 0xA0])"

definition trim :: "string \<Rightarrow> string" where
  "trim s = rev (dropWhile is_space (rev (dropWhile is_space s)))"

text \<open>
  \<open>s.split(/\s+/)\<close>: the pieces between the maximal runs of white space. The flag says
  that the scan is inside such a run, whose piece has already been closed.
\<close>

fun split_ws :: "bool \<Rightarrow> string \<Rightarrow> string list" where
  "split_ws inws [] = [[]]"
| "split_ws inws (c # cs) =
     (if is_space c then (if inws then split_ws True cs else [] # split_ws True cs)
      else (case split_ws False cs of
              [] \<Rightarrow> [[c]]
            | w # ws \<Rightarrow> (c # w) # ws))"

text \<open>\<open>countWords\<close> of src/dataStore.ts.\<close>

definition countWords :: "string \<Rightarrow> nat" where
  "countWords text =
     (if text = [] then 0
      else length (filter (\<lambda>w. w \<noteq> []) (split_ws False (trim text))))"

text \<open>The JavaScript expression \<open>x || ''\<close> on a string or null.\<close>

definition or_empty :: "string option \<Rightarrow> string" where
  "or_empty x = (case x of None \<Rightarrow> [] | Some c \<Rightarrow> (if c = [] then [] else c))"


section \<open>Local cache and remote store\<close>

text \<open>
  \<open>localStorage\<close> is an association list from keys to values. \<open>setItem\<close> replaces the
  value of a key that is present and appends a new key otherwise.
\<close>

type_synonym local_storage = "(string \<times> string) list"

definition getItem :: "local_storage \<Rightarrow> string \<Rightarrow> string option" where
  "getItem ls k = map_of ls k"

definition setItem :: "local_storage \<Rightarrow> string \<Rightarrow> string \<Rightarrow> local_storage" where
  "setItem ls k v = AList.update k v ls"

definition USER_EMAIL_KEY :: string where
  "USER_EMAIL_KEY = ''userEmail''"

definition LOCAL_ENTRY_PREFIX :: string where
  "LOCAL_ENTRY_PREFIX = ''local-journal-entry-''"

definition startsWith :: "string \<Rightarrow> string \<Rightarrow> bool" where
  "startsWith s p = (take (length p) s = p)"

text \<open>
  The table \<open>journal_entries\<close> of the remote service, keyed by \<open>(user_email, date_key)\<close>,
  each row holding \<open>(content, word_count, updated_at)\<close>. The service is an external
  collaborator; the model keeps what the source relies on: an upsert on the conflict key
  replaces the row, a \<open>.single()\<close> query of a missing row answers with the error code
  PGRST116, and every request of a call fails when the service is unreachable.
\<close>

type_synonym row = "string \<times> int \<times> string"
type_synonym remote_table = "((string \<times> string) \<times> row) list"

datatype remote_error = PGRST116 | Unavailable

datatype 'a response = Response (data: "'a option") (error: "remote_error option")

definition select_content :: "bool \<Rightarrow> remote_table \<Rightarrow> string \<Rightarrow> string \<Rightarrow> string response" where
  "select_content reachable tbl email dateKey =
     (if \<not> reachable then Response None (Some Unavailable)
      else (case map_of tbl (email, dateKey) of
              None \<Rightarrow> Response None (Some PGRST116)
            | Some (content, wc, ts) \<Rightarrow> Response (Some content) None))"

definition rows_of :: "remote_table \<Rightarrow> string \<Rightarrow> (string \<times> int) list" where
  "rows_of tbl email =
     map (\<lambda>((e, d), (content, wc, ts)). (d, wc))
       (filter (\<lambda>((e, d), r). e = email) (AList.clearjunk tbl))"

definition select_rows :: "bool \<Rightarrow> remote_table \<Rightarrow> string \<Rightarrow> (string \<times> int) list response" where
  "select_rows reachable tbl email =
     (if \<not> reachable then Response None (Some Unavailable)
      else Response (Some (rows_of tbl email)) None)"

definition upsert ::
  "bool \<Rightarrow> remote_table \<Rightarrow> string \<Rightarrow> string \<Rightarrow> row \<Rightarrow> remote_table \<times> remote_error option" where
  "upsert reachable tbl email dateKey r =
     (if \<not> reachable then (tbl, Some Unavailable)
      else (AList.update (email, dateKey) r tbl, None))"

record world =
  localStorage :: local_storage
  supabase :: remote_table


section \<open>The data store (src/dataStore.ts)\<close>

datatype error = NotLoggedIn

text \<open>
  \<open>getEntry\<close>: the result is \<open>None\<close> for JavaScript's null. The first argument of each
  operation says whether the remote service is reachable during the call.
\<close>

definition getEntry :: "bool \<Rightarrow> string \<Rightarrow> world \<Rightarrow> string option \<times> world" where
  "getEntry reachable dateKey w =
     (let email = or_empty (getItem (localStorage w) USER_EMAIL_KEY) in
      if email = [] then (None, w)
      else
        (let r = select_content reachable (supabase w) email dateKey in
         if error r \<noteq> None \<and> error r \<noteq> Some PGRST116
         then (Some (or_empty (getItem (localStorage w) (LOCAL_ENTRY_PREFIX @ dateKey))), w)
         else
           (let content = or_empty (data r) in
            (Some content,
             w\<lparr>localStorage := setItem (localStorage w) (LOCAL_ENTRY_PREFIX @ dateKey) content\<rparr>))))"

text \<open>\<open>saveEntry\<close>: \<open>now\<close> is the time stamp \<open>new Date().toISOString()\<close>.\<close>

definition saveEntry :: "bool \<Rightarrow> string \<Rightarrow> string \<Rightarrow> string \<Rightarrow> world \<Rightarrow> error + world" where
  "saveEntry reachable now dateKey content w =
     (let email = or_empty (getItem (localStorage w) USER_EMAIL_KEY) in
      if email = [] then Inl NotLoggedIn
      else
        (let word_count = countWords content;
             ls = setItem (localStorage w) (LOCAL_ENTRY_PREFIX @ dateKey) content;
             (tbl, err) = upsert reachable (supabase w) email dateKey (content, int word_count, now)
         in Inr \<lparr>localStorage = ls, supabase = tbl\<rparr>))"

text \<open>
  The result \<open>Map\<close> of \<open>getAllEntries\<close> is an association list in insertion order;
  \<open>map.set\<close> is \<open>AList.update\<close>.
\<close>

definition merge_local :: "local_storage \<Rightarrow> (string \<times> int) list \<Rightarrow> string \<Rightarrow> (string \<times> int) list" where
  "merge_local ls m key =
     (let dateKey = drop (length LOCAL_ENTRY_PREFIX) key in
      if map_of m dateKey = None
      then
        (let content = or_empty (getItem ls key);
             wordCount = countWords content
         in if wordCount > 0 then AList.update dateKey (int wordCount) m else m)
      else m)"

definition local_only :: "local_storage \<Rightarrow> (string \<times> int) list \<Rightarrow> string \<Rightarrow> (string \<times> int) list" where
  "local_only ls m key =
     (let dateKey = drop (length LOCAL_ENTRY_PREFIX) key;
          content = or_empty (getItem ls key);
          wordCount = countWords content
      in if wordCount > 0 then AList.update dateKey (int wordCount) m else m)"

definition localKeys :: "local_storage \<Rightarrow> string list" where
  "localKeys ls = filter (\<lambda>key. startsWith key LOCAL_ENTRY_PREFIX) (map fst ls)"

definition getAllEntries :: "bool \<Rightarrow> world \<Rightarrow> (string \<times> int) list" where
  "getAllEntries reachable w =
     (let email = or_empty (getItem (localStorage w) USER_EMAIL_KEY) in
      if email = [] then []
      else
        (let r = select_rows reachable (supabase w) email in
         if error r \<noteq> None
         then foldl (local_only (localStorage w)) [] (localKeys (localStorage w))
         else
           (let m = foldl (\<lambda>m (d, wc). AList.update d wc m) [] (case data r of None \<Rightarrow> [] | Some rows \<Rightarrow> rows)
            in foldl (merge_local (localStorage w)) m (localKeys (localStorage w)))))"

text \<open>
  Specification side: no user identity is stored when the key \<open>userEmail\<close> is missing
  or holds the empty string (both are falsy in \<open>!email\<close>).
\<close>

definition no_identity :: "world \<Rightarrow> bool" where
  "no_identity w =
     (getItem (localStorage w) USER_EMAIL_KEY = None \<or>
      getItem (localStorage w) USER_EMAIL_KEY = Some [])"

text \<open>
  Specification side: the word count that the local cache gives a date key, present only
  when the cached content has a positive word count.
\<close>

definition local_count :: "local_storage \<Rightarrow> string \<Rightarrow> int option" where
  "local_count ls d =
     (case getItem ls (LOCAL_ENTRY_PREFIX @ d) of
        None \<Rightarrow> None
      | Some content \<Rightarrow> (if countWords content > 0 then Some (int (countWords content)) else None))"

section \<open>Dominant subcategory (src/index.tsx, DailyStatsView)\<close>

text \<open>
  \<open>getDominantCategory\<close>: \<open>Object.entries(categoryData)\<close> is the list of the entries in
  insertion order; \<open>reduce\<close> without an initial value starts from the first entry.
\<close>

definition getDominantCategory :: "(string \<times> int) list \<Rightarrow> string" where
  "getDominantCategory entries =
     (case entries of
        [] \<Rightarrow> ''N/A''
      | e # es \<Rightarrow>
          (if list_all (\<lambda>(key, v). v = 0) entries then ''N/A''
           else fst (foldl (\<lambda>a b. if snd a > snd b then a else b) e es)))"

section \<open>Word-count history (src/index.tsx, saveEntry of JournalView)\<close>

text \<open>
  The history store maps a date key to the series parsed from the item
  \<open>journal-history-<dateKey>\<close>; \<open>None\<close> is a missing item (null). \<open>now1\<close> and
  \<open>now2\<close> are the two readings of \<open>Date.now()\<close>.
\<close>

record sample =
  timestamp :: int
  wordCount :: nat

type_synonym history_store = "string \<rightharpoonup> sample list"

definition saveEntry_history ::
  "int \<Rightarrow> int \<Rightarrow> string \<Rightarrow> string \<Rightarrow> history_store \<Rightarrow> history_store" where
  "saveEntry_history now1 now2 dateKey newText store =
     (let newWordCount = countWords newText in
      if newWordCount > 0
      then
        (let history = (case store dateKey of None \<Rightarrow> [] | Some h \<Rightarrow> h);
             lastPoint = (if length history > 0 then Some (last history) else None);
             history1 = (if length history = 0
                         then history @ [\<lparr>timestamp = now1 - 1000, wordCount = 0\<rparr>]
                         else history)
         in if (case lastPoint of None \<Rightarrow> True | Some p \<Rightarrow> wordCount p \<noteq> newWordCount)
            then store(dateKey \<mapsto> history1 @ [\<lparr>timestamp = now2, wordCount = newWordCount\<rparr>])
            else store)
      else store(dateKey \<mapsto> []))"

text \<open>Specification side: the series of a date key, empty when nothing is stored.\<close>

definition series :: "history_store \<Rightarrow> string \<Rightarrow> sample list" where
  "series store dateKey = (case store dateKey of None \<Rightarrow> [] | Some h \<Rightarrow> h)"

section \<open>Streaks (src/index.tsx, calculateStreaks)\<close>

text \<open>
  A canonical date key \<open>YYYY-MM-DD\<close> is represented by the number of its day, an integer
  that grows by one from each calendar day to the next. \<open>new Date(key)\<close>, the local
  midnight of that day, is then the day number itself, and the difference of two
  \<open>getTime()\<close> values rounded to days is the difference of the day numbers.

  The walk backward starts at the local midnight of the host's current day, \<open>today\<close>,
  and \<open>setDate(getDate() - 1)\<close> moves to the local midnight of the day before. The key
  tested for a local midnight is \<open>toDateKey\<close> of it, which prints the date in UTC: the
  same day where the offset of the host from UTC is zero or negative at that midnight, the
  day before where it is positive. The time zone of the host is the argument \<open>east\<close>,
  which says for each day whether the offset is positive at its local midnight.

  \<open>longest_loop\<close> is the \<open>for\<close> loop over the adjacent pairs of the sorted dates,
  \<open>current_loop\<close> the \<open>while\<close> loop that walks backward from today; the membership
  test in \<open>set entryKeys\<close> is \<open>dateSet.has\<close>.
\<close>

record streaks =
  currentStreak :: nat
  longestStreak :: nat

fun longest_loop :: "int list \<Rightarrow> nat \<Rightarrow> nat \<Rightarrow> nat" where
  "longest_loop (prevDate # currentDate # rest) currentLongest longest =
     (let diffDays = currentDate - prevDate;
          currentLongest' = (if diffDays = 1 then currentLongest + 1 else 1);
          longest' = (if currentLongest' > longest then currentLongest' else longest)
      in longest_loop (currentDate # rest) currentLongest' longest')"
| "longest_loop sortedDates currentLongest longest = longest"

definition toDateKey :: "(int \<Rightarrow> bool) \<Rightarrow> int \<Rightarrow> int" where
  "toDateKey east date = (if east date then date - 1 else date)"

function current_loop :: "(int \<Rightarrow> bool) \<Rightarrow> int list \<Rightarrow> int \<Rightarrow> nat \<Rightarrow> nat" where
  "current_loop east entryKeys dateToCheck current =
     (if toDateKey east dateToCheck \<in> set entryKeys
      then current_loop east entryKeys (dateToCheck - 1) (current + 1)
      else current)"
  by pat_completeness auto
termination
proof (relation "measure (\<lambda>(east, entryKeys, dateToCheck, current).
                    nat (dateToCheck + 1 - Min (set entryKeys)))")
  show "wf (measure (\<lambda>(east :: int \<Rightarrow> bool, entryKeys, dateToCheck, current :: nat).
                    nat (dateToCheck + 1 - Min (set entryKeys))))"
    by simp
next
  fix east :: "int \<Rightarrow> bool" and entryKeys :: "int list" and dateToCheck :: int
    and current :: nat
  assume a: "toDateKey east dateToCheck \<in> set entryKeys"
  then have "Min (set entryKeys) \<le> toDateKey east dateToCheck" by simp
  moreover have "toDateKey east dateToCheck \<le> dateToCheck" by (simp add: toDateKey_def)
  ultimately have "Min (set entryKeys) \<le> dateToCheck" by simp
  then show "((east, entryKeys, dateToCheck - 1, current + 1), (east, entryKeys, dateToCheck, current))
      \<in> measure (\<lambda>(east, entryKeys, dateToCheck, current).
            nat (dateToCheck + 1 - Min (set entryKeys)))"
    by simp
qed

declare current_loop.simps [simp del]

definition calculateStreaks :: "(int \<Rightarrow> bool) \<Rightarrow> int list \<Rightarrow> int \<Rightarrow> streaks" where
  "calculateStreaks east entryKeys today =
     (if length entryKeys = 0 then \<lparr>currentStreak = 0, longestStreak = 0\<rparr>
      else
        (let sortedDates = sort entryKeys;
             longest = (if length sortedDates > 0 then longest_loop sortedDates 1 1 else 0);
             current = current_loop east entryKeys today 0
         in \<lparr>currentStreak = current, longestStreak = longest\<rparr>))"

text \<open>
  Specification side: \<open>all_present S a m\<close> says that the \<open>m\<close> consecutive days from
  \<open>a\<close> on are all in \<open>S\<close>; \<open>max_run S l\<close> says that \<open>l\<close> is the greatest length of
  such a run of consecutive days in \<open>S\<close>.
\<close>

definition all_present :: "int set \<Rightarrow> int \<Rightarrow> nat \<Rightarrow> bool" where
  "all_present S a m = (\<forall>i < m. a + int i \<in> S)"

definition max_run :: "int set \<Rightarrow> nat \<Rightarrow> bool" where
  "max_run S l = ((\<exists>a. all_present S a l) \<and> (\<forall>a m. all_present S a m \<longrightarrow> m \<le> l))"

section \<open>Text analyzer (src/index.tsx, analyzeText)\<close>

text \<open>
  \<open>is_word_char\<close> is the class \<open>\w\<close> of JavaScript regular expressions: the digits, the
  ASCII letters and the underscore. \<open>toLowerCase\<close> maps the upper-case letters of the
  Latin-1 range to their lower-case forms.
\<close>

definition is_word_char :: "char \<Rightarrow> bool" where
  "is_word_char c =
     (let n = of_char c :: nat in
      (48 \<le> n \<and> n \<le> 57) \<or> (65 \<le> n \<and> n \<le> 90) \<or> n = 95 \<or> (97 \<le> n \<and> n \<le> 122))"

definition lower_char :: "char \<Rightarrow> char" where
  "lower_char c =
     (let n = of_char c :: nat in
      if (65 \<le> n \<and> n \<le> 90) \<or> (192 \<le> n \<and> n \<le> 222 \<and> n \<noteq> 215)
      then char_of (n + 32) else c)"

definition toLowerCase :: "string \<Rightarrow> string" where
  "toLowerCase s = map lower_char s"

text \<open>
  The regular expression built for a keyword is the keyword between two word-boundary
  assertions; every keyword of the lexicon is a non-empty string of letters, spaces and
  apostrophes, so it matches itself only. \<open>word_at s\<close> says that \<open>s\<close> starts with a word
  character; a boundary lies between two positions exactly one of which holds a word
  character. \<open>matches_here kw prevw s\<close> says that the expression matches at the start of
  \<open>s\<close>, where \<open>prevw\<close> tells whether the character before is a word character.

  \<open>count_matches\<close> is the length of \<open>text.match(regex)\<close> for a global expression: the
  number of matches found from left to right, each search resuming after the previous
  match (\<open>skip\<close> counts the characters of a match still to be passed over).
\<close>

definition word_at :: "string \<Rightarrow> bool" where
  "word_at s = (case s of [] \<Rightarrow> False | c # cs \<Rightarrow> is_word_char c)"

fun strip_prefix :: "string \<Rightarrow> string \<Rightarrow> string option" where
  "strip_prefix [] s = Some s"
| "strip_prefix (k # ks) [] = None"
| "strip_prefix (k # ks) (c # cs) = (if k = c then strip_prefix ks cs else None)"

definition matches_here :: "string \<Rightarrow> bool \<Rightarrow> string \<Rightarrow> bool" where
  "matches_here kw prevw s =
     (case strip_prefix kw s of
        None \<Rightarrow> False
      | Some rest \<Rightarrow> prevw \<noteq> word_at s \<and> word_at (rev kw) \<noteq> word_at rest)"

fun count_matches :: "string \<Rightarrow> bool \<Rightarrow> nat \<Rightarrow> string \<Rightarrow> nat" where
  "count_matches kw prevw skip [] = 0"
| "count_matches kw prevw skip (c # cs) =
     (if skip > 0 then count_matches kw (is_word_char c) (skip - 1) cs
      else if matches_here kw prevw (c # cs)
      then 1 + count_matches kw (is_word_char c) (length kw - 1) cs
      else count_matches kw (is_word_char c) 0 cs)"

definition ANALYSIS_KEYWORDS :: "(string \<times> (string \<times> string list) list) list" where
  "ANALYSIS_KEYWORDS =
    [
     (''feeling'',
      [
       (''Anxiety / Fear'',
          [''anxious'', ''anxiety'', ''fear'', ''scared'', ''worry'', ''worried'', ''nervous'',
           ''stress'', ''stressful'', ''dread'', ''afraid'', ''panic'', ''panicked'',
           ''overwhelmed'', ''tense'', ''unease'', ''terror'', ''horror'', ''pressure'',
           ''threat'']),
       (''Joy / Happiness'',
          [''happy'', ''joy'', ''joyful'', ''cheerful'', ''delighted'', ''ecstatic'', ''glad'',
           ''content'', ''pleased'', ''excited'', ''amazing'', ''wonderful'', ''fantastic'',
           ''great'', ''good'', ''love'', ''blessed'', ''grateful'', ''thankful'', ''vibrant'']),
       (''Sadness / Grief'',
          [''sad'', ''sadness'', ''grief'', ''cry'', ''cried'', ''tears'', ''unhappy'',
           ''miserable'', ''depressed'', ''dejected'', ''heartbroken'', ''despair'',
           ''lonely'', ''alone'', ''empty'', ''down'', ''somber'', ''regret'', ''hurt'',
           ''pain'']),
       (''Anger / Frustration'',
          [''angry'', ''anger'', ''mad'', ''furious'', ''rage'', ''frustrated'', ''annoyed'',
           ''irritated'', ''pissed'', ''livid'', ''resent'', ''bitter'', ''outrage'', ''fury'',
           ''hate'', ''agitated'', ''exasperated'']),
       (''Love / Affection'',
          [''love'', ''loving'', ''care'', ''caring'', ''adore'', ''cherish'', ''affection'',
           ''fond'', ''passion'', ''passionate'', ''heartfelt'', ''tender'', ''warm'',
           ''connected'', ''appreciate'', ''relationship'', ''friend'', ''family''])
      ]),
     (''topic'',
      [
       (''Work / Career'',
          [''work'', ''job'', ''career'', ''office'', ''company'', ''project'', ''task'',
           ''meeting'', ''email'', ''boss'', ''colleague'', ''coworker'', ''deadline'',
           ''presentation'', ''salary'', ''promotion'', ''professional'', ''corporate'',
           ''business'']),
       (''Family / Home'',
          [''family'', ''home'', ''mom'', ''dad'', ''parent'', ''sister'', ''brother'',
           ''sibling'', ''kids'', ''children'', ''son'', ''daughter'', ''husband'', ''wife'',
           ''partner'', ''house'', ''apartment'', ''relatives'']),
       (''Health / Wellness'',
          [''health'', ''healthy'', ''sick'', ''ill'', ''doctor'', ''hospital'', ''medicine'',
           ''pain'', ''body'', ''mind'', ''fitness'', ''exercise'', ''gym'', ''food'',
           ''diet'', ''sleep'', ''tired'', ''energy'', ''wellness'', ''mental health'']),
       (''Self / Personal Growth'',
          [''i'', ''me'', ''my'', ''myself'', ''feel'', ''think'', ''believe'', ''learn'',
           ''grow'', ''improve'', ''self'', ''goal'', ''habit'', ''journal'', ''read'',
           ''understand'', ''reflect'', ''introspection'', ''mindset'', ''future''])
      ]),
     (''mindset'',
      [
       (''Positive'',
          [''yes'', ''can'', ''will'', ''great'', ''good'', ''wonderful'', ''amazing'',
           ''success'', ''achieve'', ''accomplished'', ''proud'', ''confident'', ''hopeful'',
           ''optimistic'', ''possible'', ''certain'', ''definite'', ''solution'', ''resolve'',
           ''clear'']),
       (''Negative'',
          [''no'', ''not'', (''can'' @ [CHR 0x27] @ ''t''), (''won'' @ [CHR 0x27] @ ''t''),
           ''bad'', ''terrible'', ''awful'', ''failure'', ''fail'', ''mistake'', ''wrong'',
           ''doubt'', ''regret'', ''hopeless'', ''pessimistic'', ''impossible'', ''problem'',
           ''issue'', ''difficult'', ''hard'']),
       (''Certain'',
          [''know'', ''knew'', ''certainly'', ''definitely'', ''absolutely'', ''will'', ''is'',
           ''are'', ''was'', ''always'', ''fact'', ''confirm'', ''proven'', ''understand'',
           ''understood'', ''realize'']),
       (''Uncertain'',
          [''maybe'', ''perhaps'', ''wonder'', ''if'', ''could'', ''might'', ''should'',
           ''possibly'', ''guess'', ''assume'', ''suppose'', ''unsure'', ''unclear'',
           ''question'', ''seem'', ''appear''])
      ]),
     (''time'',
      [
       (''Past'',
          [''yesterday'', ''before'', ''ago'', ''last'', ''past'', ''remembered'',
           ''recalled'', ''reflected'', ''was'', ''were'', ''had'', ''did'', ''used to'',
           ''previously'', ''back then'', ''history'']),
       (''Present'',
          [''today'', ''now'', ''currently'', ''present'', ''is'', ''am'', ''are'', ''doing'',
           ''feeling'', ''thinking'', ''at the moment'', ''this'', ''here'']),
       (''Future'',
          [''tomorrow'', ''future'', ''next'', ''soon'', ''will'', ''plan'', ''planning'',
           ''goal'', ''hope'', ''wish'', ''anticipate'', ''expect'', ''looking forward'',
           ''going to'', ''someday''])
      ]),
     (''perspective'',
      [
       (''I (Self-focused)'',
          [''i'', ''me'', ''my'', ''mine'', ''myself'']),
       (''We (Group-focused)'',
          [''we'', ''us'', ''our'', ''ours'', ''ourselves'']),
       (''Them (Other-focused)'',
          [''he'', ''she'', ''they'', ''him'', ''her'', ''them'', ''his'', ''hers'',
           ''theirs'', ''that person'', ''people''])
      ])
    ]"

text \<open>
  \<open>analyzeText\<close>: the result object lists the categories and subcategories in the order
  of the lexicon. The variable \<open>words\<close> of the source is not used and is left out.
\<close>

definition analyzeText :: "string \<Rightarrow> (string \<times> (string \<times> int) list) list" where
  "analyzeText text =
     map (\<lambda>(category, subCategories).
            (category,
             map (\<lambda>(subCategory, kws).
                    (subCategory,
                     foldl (\<lambda>count keyword.
                              count + int (count_matches keyword False 0 (toLowerCase text)))
                       0 kws))
               subCategories))
       ANALYSIS_KEYWORDS"

section \<open>Word cloud (src/index.tsx, WordCloud)\<close>

text \<open>\<open>is_az\<close> is the character class \<open>[a-z]\<close>.\<close>

definition is_az :: "char \<Rightarrow> bool" where
  "is_az c = (let n = of_char c :: nat in 97 \<le> n \<and> n \<le> 122)"

text \<open>
  The expression \<open>\b[a-z]{3,}\b\<close> tried at one position. After a word boundary the greedy
  quantifier takes the longest run of letters, here of length \<open>n\<close>, and gives letters
  back one at a time, down to three, until a word boundary follows: \<open>try_len s n\<close> is
  the length of the match found in this way, if any.
\<close>

fun try_len :: "string \<Rightarrow> nat \<Rightarrow> nat option" where
  "try_len s 0 = None"
| "try_len s (Suc k) =
     (if 3 \<le> Suc k \<and> word_at (rev (take (Suc k) s)) \<noteq> word_at (drop (Suc k) s)
      then Some (Suc k) else try_len s k)"

definition match_word :: "bool \<Rightarrow> string \<Rightarrow> nat option" where
  "match_word prevw s =
     (if prevw \<noteq> word_at s then try_len s (length (takeWhile is_az s)) else None)"

text \<open>
  \<open>match_words\<close> is \<open>text.match(/\b[a-z]{3,}\b/g) || []\<close>: the matches from left to
  right, each search resuming after the previous match (\<open>skip\<close> counts the characters of
  a match still to be passed over).
\<close>

fun match_words :: "bool \<Rightarrow> nat \<Rightarrow> string \<Rightarrow> string list" where
  "match_words prevw skip [] = []"
| "match_words prevw skip (c # cs) =
     (if skip > 0 then match_words (is_word_char c) (skip - 1) cs
      else (case match_word prevw (c # cs) of
              Some k \<Rightarrow> take k (c # cs) # match_words (is_word_char c) (k - 1) cs
            | None \<Rightarrow> match_words (is_word_char c) 0 cs))"

text \<open>The set \<open>STOP_WORDS\<close>, as the list of its members.\<close>

definition STOP_WORDS :: "string list" where
  "STOP_WORDS =
     [''a'', ''an'', ''and'', ''are'', ''as'', ''at'', ''be'', ''but'', ''by'', ''for'', ''has'',
      ''have'', ''in'', ''is'', ''it'', ''its'', ''of'', ''on'', ''that'', ''the'', ''to'', ''was'',
      ''were'', ''with'']"

text \<open>
  \<open>count_word\<close> is the body of the \<open>forEach\<close> over the matches; the \<open>Map\<close> of the counts
  is an association list in insertion order.
\<close>

definition count_word :: "(string \<times> nat) list \<Rightarrow> string \<Rightarrow> (string \<times> nat) list" where
  "count_word wordCounts w =
     (if w \<notin> set STOP_WORDS
      then AList.update w ((case map_of wordCounts w of None \<Rightarrow> 0 | Some n \<Rightarrow> n) + 1) wordCounts
      else wordCounts)"

text \<open>
  \<open>WordCloud\<close>: the list of the words with their font sizes computed by the component.
  \<open>Array.prototype.sort\<close> is stable, as \<open>sort_key\<close> is; its comparison
  \<open>b.count - a.count\<close> orders by descending count. A font size is the exact rational
  value of the source's expression, which the source evaluates in double precision.
\<close>

definition WordCloud :: "string \<Rightarrow> (string \<times> rat) list" where
  "WordCloud text =
     (let matches = match_words False 0 (toLowerCase text);
          wordCounts = foldl count_word [] matches;
          sortedWords = take 50 (sort_key (\<lambda>(w, count). - int count) wordCounts)
      in if length sortedWords = 0 then []
         else
           (let minCount = snd (last sortedWords);
                maxCount = snd (hd sortedWords);
                minFontSize = 16;
                maxFontSize = 36
            in map (\<lambda>(w, count).
                      (w,
                       if maxCount > minCount
                       then minFontSize +
                              ((of_nat count - of_nat minCount) / (of_nat maxCount - of_nat minCount))
                                * (maxFontSize - minFontSize)
                       else if maxCount = minCount \<and> length sortedWords > 0
                       then (minFontSize + maxFontSize) / 2
                       else minFontSize))
                 sortedWords))"

text \<open>
  Specification side. \<open>runs P s\<close> lists the maximal runs of characters of \<open>s\<close> that
  satisfy \<open>P\<close>. The whole-word tokens are the maximal runs of word characters that consist
  of lower-case letters only and have at least three of them; the alphabetic runs are the
  maximal runs of lower-case letters that have at least three of them.
\<close>

function runs :: "(char \<Rightarrow> bool) \<Rightarrow> string \<Rightarrow> string list" where
  "runs P [] = []"
| "runs P (c # cs) =
     (if P c then (c # takeWhile P cs) # runs P (dropWhile P cs) else runs P cs)"
  by pat_completeness auto
termination
  by (relation "measure (\<lambda>(P, s). length s)") (auto simp: length_dropWhile_le less_Suc_eq_le)

definition whole_word_tokens :: "string \<Rightarrow> string list" where
  "whole_word_tokens s = filter (\<lambda>w. 3 \<le> length w \<and> list_all is_az w) (runs is_word_char s)"

definition alphabetic_runs :: "string \<Rightarrow> string list" where
  "alphabetic_runs s = filter (\<lambda>w. 3 \<le> length w) (runs is_az s)"

text \<open>
  Specification side. \<open>first_seen\<close> keeps the first occurrence of each element;
  \<open>cloud_terms\<close> are the whole-word tokens of the case-folded text that are no stop words;
  \<open>cloud_counts\<close> pairs each term with its frequency, in first-seen order; \<open>font_size\<close>
  is the linear scale from 16 at the count \<open>lo\<close> to 36 at the count \<open>hi\<close>, and the
  midpoint 26 when the two counts coincide.
\<close>

fun first_seen :: "'a list \<Rightarrow> 'a list" where
  "first_seen [] = []"
| "first_seen (x # xs) = x # filter (\<lambda>y. y \<noteq> x) (first_seen xs)"

definition cloud_terms :: "string \<Rightarrow> string list" where
  "cloud_terms text =
     filter (\<lambda>w. w \<notin> set STOP_WORDS) (whole_word_tokens (toLowerCase text))"

definition cloud_counts :: "string \<Rightarrow> (string \<times> nat) list" where
  "cloud_counts text =
     map (\<lambda>w. (w, count_list (cloud_terms text) w)) (first_seen (cloud_terms text))"

definition font_size :: "nat \<Rightarrow> nat \<Rightarrow> nat \<Rightarrow> rat" where
  "font_size lo hi c =
     (if lo < hi then 16 + (of_nat c - of_nat lo) / (of_nat hi - of_nat lo) * 20 else 26)"

text \<open>The update of the count of one term that is no stop word.\<close>

definition bump :: "(string \<times> nat) list \<Rightarrow> string \<Rightarrow> (string \<times> nat) list" where
  "bump m w = AList.update w ((case map_of m w of None \<Rightarrow> 0 | Some n \<Rightarrow> n) + 1) m"

section \<open>Properties of the data store\<close>

lemma or_empty_Some [simp]: "or_empty (Some c) = c"
  by (simp add: or_empty_def)

lemma or_empty_None [simp]: "or_empty None = []"
  by (simp add: or_empty_def)

lemma no_identity_iff: "no_identity w \<longleftrightarrow> or_empty (getItem (localStorage w) USER_EMAIL_KEY) = []"
  by (cases "getItem (localStorage w) USER_EMAIL_KEY") (auto simp: no_identity_def)

lemma startsWith_prefix: "startsWith key p \<Longrightarrow> p @ drop (length p) key = key"
  by (metis append_take_drop_id startsWith_def)

lemma map_of_set_rows:
  "map_of (foldl (\<lambda>m (d, wc). AList.update d wc m) m rows) d =
     (case map_of (rev rows) d of None \<Rightarrow> map_of m d | Some wc \<Rightarrow> Some wc)"
proof (induction rows rule: rev_induct)
  case Nil
  then show ?case by simp
next
  case (snoc r rows)
  then show ?case
    by (cases r) (simp add: update_conv')
qed

lemma local_count_key:
  "local_count ls d =
     (let c = countWords (or_empty (getItem ls (LOCAL_ENTRY_PREFIX @ d)))
      in if c > 0 then Some (int c) else None)"
  by (simp add: local_count_def Let_def countWords_def split: option.splits)

lemma merge_local_step:
  assumes "startsWith k LOCAL_ENTRY_PREFIX"
  shows "map_of (merge_local ls m k) d =
     (case map_of m d of
        Some wc \<Rightarrow> Some wc
      | None \<Rightarrow> (if k = LOCAL_ENTRY_PREFIX @ d then local_count ls d else None))"
proof -
  have k: "LOCAL_ENTRY_PREFIX @ drop (length LOCAL_ENTRY_PREFIX) k = k"
    using assms by (rule startsWith_prefix)
  show ?thesis
  proof (cases "k = LOCAL_ENTRY_PREFIX @ d")
    case True
    then show ?thesis
      by (simp add: merge_local_def Let_def update_conv' local_count_key split: option.splits)
  next
    case False
    then have "drop (length LOCAL_ENTRY_PREFIX) k \<noteq> d" using k by auto
    then show ?thesis
      using False by (simp add: merge_local_def Let_def update_conv' split: option.splits)
  qed
qed

lemma local_only_step:
  assumes "startsWith k LOCAL_ENTRY_PREFIX"
  shows "map_of (local_only ls m k) d =
     (if k = LOCAL_ENTRY_PREFIX @ d \<and> local_count ls d \<noteq> None then local_count ls d else map_of m d)"
proof -
  have k: "LOCAL_ENTRY_PREFIX @ drop (length LOCAL_ENTRY_PREFIX) k = k"
    using assms by (rule startsWith_prefix)
  show ?thesis
  proof (cases "k = LOCAL_ENTRY_PREFIX @ d")
    case True
    then show ?thesis
      by (simp add: local_only_def Let_def update_conv' local_count_key)
  next
    case False
    then have "drop (length LOCAL_ENTRY_PREFIX) k \<noteq> d" using k by auto
    then show ?thesis
      using False by (simp add: local_only_def Let_def update_conv')
  qed
qed

lemma map_of_merge_local:
  assumes "\<forall>key \<in> set ks. startsWith key LOCAL_ENTRY_PREFIX"
  shows "map_of (foldl (merge_local ls) m ks) d =
     (case map_of m d of
        Some wc \<Rightarrow> Some wc
      | None \<Rightarrow> (if LOCAL_ENTRY_PREFIX @ d \<in> set ks then local_count ls d else None))"
  using assms
proof (induction ks rule: rev_induct)
  case Nil
  then show ?case by (simp split: option.splits)
next
  case (snoc k ks)
  then show ?case
    by (auto simp: merge_local_step split: option.splits)
qed

lemma map_of_local_only:
  assumes "\<forall>key \<in> set ks. startsWith key LOCAL_ENTRY_PREFIX"
  shows "map_of (foldl (local_only ls) m ks) d =
     (if LOCAL_ENTRY_PREFIX @ d \<in> set ks \<and> local_count ls d \<noteq> None then local_count ls d else map_of m d)"
  using assms
proof (induction ks rule: rev_induct)
  case Nil
  then show ?case by simp
next
  case (snoc k ks)
  then show ?case
    by (auto simp: local_only_step)
qed

lemma localKeys_startsWith: "\<forall>key \<in> set (localKeys ls). startsWith key LOCAL_ENTRY_PREFIX"
  by (simp add: localKeys_def)

lemma local_count_not_key:
  "LOCAL_ENTRY_PREFIX @ d \<notin> set (localKeys ls) \<Longrightarrow> local_count ls d = None"
proof -
  assume a: "LOCAL_ENTRY_PREFIX @ d \<notin> set (localKeys ls)"
  have "startsWith (LOCAL_ENTRY_PREFIX @ d) LOCAL_ENTRY_PREFIX" by (simp add: startsWith_def)
  with a have "LOCAL_ENTRY_PREFIX @ d \<notin> fst ` set ls" by (auto simp: localKeys_def)
  then have "map_of ls (LOCAL_ENTRY_PREFIX @ d) = None" by (simp add: map_of_eq_None_iff)
  then show ?thesis by (simp add: local_count_def getItem_def)
qed

lemma map_of_rows_aux:
  "map_of (map (\<lambda>((e, d), (content, wc, ts)). (d, wc)) (filter (\<lambda>((e, d), r). e = email) xs)) d =
     map_option (\<lambda>(content, wc, ts). wc) (map_of xs (email, d))"
  by (induction xs) auto

lemma map_of_rows_of:
  "map_of (rows_of tbl email) d = map_option (\<lambda>(content, wc, ts). wc) (map_of tbl (email, d))"
  by (simp add: rows_of_def map_of_rows_aux map_of_clearjunk)

lemma distinct_rows_aux:
  "distinct (map fst xs) \<Longrightarrow>
   distinct (map fst (map (\<lambda>((e, d), (content, wc, ts)). (d, wc)) (filter (\<lambda>((e, d), r). e = email) xs)))"
  by (induction xs) (auto simp: image_iff)

lemma distinct_rows_of: "distinct (map fst (rows_of tbl email))"
  unfolding rows_of_def by (rule distinct_rows_aux) simp

lemma map_of_rev_distinct: "distinct (map fst xs) \<Longrightarrow> map_of (rev xs) k = map_of xs k"
proof (induction xs)
  case Nil
  then show ?case by simp
next
  case (Cons x xs)
  obtain a b where x: "x = (a, b)" by (cases x)
  from Cons have IH: "map_of (rev xs) k = map_of xs k" and na: "map_of xs a = None"
    by (auto simp: x map_of_eq_None_iff)
  show ?case
    using IH na by (cases "k = a") (simp_all add: x map_add_def split: option.splits)
qed

lemma distinct_set_rows: "distinct (map fst m) \<Longrightarrow> distinct (map fst (foldl (\<lambda>m (d, wc). AList.update d wc m) m rows))"
  by (induction rows arbitrary: m) (auto simp: distinct_update)

lemma distinct_merge_local: "distinct (map fst m) \<Longrightarrow> distinct (map fst (foldl (merge_local ls) m ks))"
  by (induction ks arbitrary: m) (auto simp: distinct_update merge_local_def Let_def)

lemma distinct_local_only: "distinct (map fst m) \<Longrightarrow> distinct (map fst (foldl (local_only ls) m ks))"
  by (induction ks arbitrary: m) (auto simp: distinct_update local_only_def Let_def)

lemma entry_key_not_email: "LOCAL_ENTRY_PREFIX @ d \<noteq> USER_EMAIL_KEY"
  by (simp add: LOCAL_ENTRY_PREFIX_def USER_EMAIL_KEY_def)


text \<open>
  C1. The claim: for content with word count 0, \<open>saveEntry\<close> followed by
  \<open>getAllEntries\<close> gives an index without the date key, whether the remote requests
  succeed or fail. Evaluated on the source for a logged-in user, an empty remote table and
  white-space content, with both requests succeeding: the upsert stores a row with word
  count 0, and the listing copies every remote row into the index without the test
  \<open>wordCount > 0\<close> that both local paths apply, so the date key is listed with count 0.
  In the same state the listing leaves the date key out when the remote request fails.
\<close>

theorem saveEntry_blank_then_listed:
  "saveEntry True ''2024-01-01T10:00:00.000Z'' ''2024-01-01'' ''  ''
     \<lparr>localStorage = [(''userEmail'', ''a@b.c'')], supabase = []\<rparr>
   = Inr \<lparr>localStorage = [(''userEmail'', ''a@b.c''), (''local-journal-entry-2024-01-01'', ''  '')],
          supabase = [((''a@b.c'', ''2024-01-01''), (''  '', 0, ''2024-01-01T10:00:00.000Z''))]\<rparr>
   \<and> getAllEntries True
     \<lparr>localStorage = [(''userEmail'', ''a@b.c''), (''local-journal-entry-2024-01-01'', ''  '')],
      supabase = [((''a@b.c'', ''2024-01-01''), (''  '', 0, ''2024-01-01T10:00:00.000Z''))]\<rparr>
   = [(''2024-01-01'', 0)]
   \<and> getAllEntries False
     \<lparr>localStorage = [(''userEmail'', ''a@b.c''), (''local-journal-entry-2024-01-01'', ''  '')],
      supabase = [((''a@b.c'', ''2024-01-01''), (''  '', 0, ''2024-01-01T10:00:00.000Z''))]\<rparr>
   = []"
  by (simp add: saveEntry_def getAllEntries_def getItem_def setItem_def USER_EMAIL_KEY_def
      LOCAL_ENTRY_PREFIX_def upsert_def countWords_def trim_def is_space_def select_rows_def
      rows_of_def localKeys_def startsWith_def merge_local_def local_only_def AList.delete_eq
      Let_def)

text \<open>
  C2, as stated: each of \<open>getEntry\<close>, \<open>saveEntry\<close> and \<open>getAllEntries\<close> surfaces a
  distinct not-authenticated error when no user identity is stored. On the source, with
  nothing stored, \<open>getEntry\<close> returns null and \<open>getAllEntries\<close> returns the empty map,
  both as ordinary results.
\<close>

theorem getEntry_getAllEntries_no_error_counterexample:
  "getEntry True ''2024-01-01'' \<lparr>localStorage = [], supabase = []\<rparr>
     = (None, \<lparr>localStorage = [], supabase = []\<rparr>)
   \<and> getAllEntries True \<lparr>localStorage = [], supabase = []\<rparr> = []"
  by (simp add: getEntry_def getAllEntries_def getItem_def Let_def)

text \<open>
  C2, amended: \<open>saveEntry\<close> fails with the error "Not logged in" exactly when no user
  identity is stored, whatever the state of the remote service; in that case \<open>getEntry\<close>
  returns null and \<open>getAllEntries\<close> returns the empty map, and neither touches the local
  cache or the remote store.
\<close>

theorem not_logged_in_behaviour:
  "(saveEntry reachable now dateKey content w = Inl NotLoggedIn \<longleftrightarrow> no_identity w) \<and>
   (no_identity w \<longrightarrow>
      getEntry reachable dateKey w = (None, w) \<and> getAllEntries reachable w = [])"
  by (auto simp: no_identity_iff saveEntry_def getEntry_def getAllEntries_def Let_def
      split: prod.splits)

theorem not_logged_in_behaviour_witness:
  "no_identity \<lparr>localStorage = [(''isLoggedIn'', ''true'')], supabase = []\<rparr> \<and>
   saveEntry False ''t'' ''2024-03-05'' ''hello'' \<lparr>localStorage = [(''isLoggedIn'', ''true'')], supabase = []\<rparr>
     = Inl NotLoggedIn \<and>
   getEntry False ''2024-03-05'' \<lparr>localStorage = [(''isLoggedIn'', ''true'')], supabase = []\<rparr>
     = (None, \<lparr>localStorage = [(''isLoggedIn'', ''true'')], supabase = []\<rparr>) \<and>
   getAllEntries False \<lparr>localStorage = [(''isLoggedIn'', ''true'')], supabase = []\<rparr> = []"
proof -
  have h: "no_identity \<lparr>localStorage = [(''isLoggedIn'', ''true'')], supabase = []\<rparr>"
    by (simp add: no_identity_def getItem_def USER_EMAIL_KEY_def)
  show ?thesis
    using h not_logged_in_behaviour [of False "''t''" "''2024-03-05''" "''hello''"
        "\<lparr>localStorage = [(''isLoggedIn'', ''true'')], supabase = []\<rparr>"]
    by simp
qed

text \<open>
  C3. For a logged-in user: when the remote enumeration succeeds, a date key with a remote
  row gets the remote word count, and any other date key gets the count of its cached
  content, present only when that count is positive; when the enumeration fails, every
  date key gets the count of its cached content, present only when positive. The keys of
  the resulting map are distinct, so the look-up describes the whole map.
\<close>

theorem getAllEntries_tie_break:
  assumes "getItem (localStorage w) USER_EMAIL_KEY = Some email" and "email \<noteq> []"
  shows "map_of (getAllEntries True w) d =
           (case map_of (supabase w) (email, d) of
              Some (content, wc, ts) \<Rightarrow> Some wc
            | None \<Rightarrow> local_count (localStorage w) d)
         \<and> map_of (getAllEntries False w) d = local_count (localStorage w) d
         \<and> distinct (map fst (getAllEntries reachable w))"
proof (intro conjI)
  have keys: "\<forall>key \<in> set (localKeys (localStorage w)). startsWith key LOCAL_ENTRY_PREFIX"
    by (rule localKeys_startsWith)
  have rows: "map_of (rev (rows_of (supabase w) email)) d =
      map_option (\<lambda>(content, wc, ts). wc) (map_of (supabase w) (email, d))"
    by (simp add: map_of_rev_distinct distinct_rows_of map_of_rows_of)
  have on: "getAllEntries True w =
      foldl (merge_local (localStorage w))
        (foldl (\<lambda>m (d, wc). AList.update d wc m) [] (rows_of (supabase w) email))
        (localKeys (localStorage w))"
    using assms by (simp add: getAllEntries_def select_rows_def Let_def)
  have off: "getAllEntries False w =
      foldl (local_only (localStorage w)) [] (localKeys (localStorage w))"
    using assms by (simp add: getAllEntries_def select_rows_def Let_def)
  show "map_of (getAllEntries True w) d =
           (case map_of (supabase w) (email, d) of
              Some (content, wc, ts) \<Rightarrow> Some wc
            | None \<Rightarrow> local_count (localStorage w) d)"
    unfolding on
    using local_count_not_key [of d "localStorage w"]
    by (auto simp: map_of_merge_local [OF keys] map_of_set_rows rows split: option.splits)
  show "map_of (getAllEntries False w) d = local_count (localStorage w) d"
    unfolding off
    using local_count_not_key [of d "localStorage w"]
    by (auto simp: map_of_local_only [OF keys])
  show "distinct (map fst (getAllEntries reachable w))"
    by (cases reachable) (simp_all add: on off distinct_merge_local distinct_set_rows distinct_local_only)
qed

theorem getAllEntries_tie_break_witness:
  "map_of (getAllEntries True
      \<lparr>localStorage = [(''userEmail'', ''a@b.c''), (''local-journal-entry-2024-01-01'', ''one two three''),
                       (''local-journal-entry-2024-01-02'', ''offline words'')],
       supabase = [((''a@b.c'', ''2024-01-01''), (''one'', 1, ''t''))]\<rparr>) ''2024-01-01'' = Some 1
   \<and> map_of (getAllEntries False
      \<lparr>localStorage = [(''userEmail'', ''a@b.c''), (''local-journal-entry-2024-01-01'', ''one two three''),
                       (''local-journal-entry-2024-01-02'', ''offline words'')],
       supabase = [((''a@b.c'', ''2024-01-01''), (''one'', 1, ''t''))]\<rparr>) ''2024-01-01'' = Some 3"
proof -
  let ?w = "\<lparr>localStorage = [(''userEmail'', ''a@b.c''), (''local-journal-entry-2024-01-01'', ''one two three''),
                       (''local-journal-entry-2024-01-02'', ''offline words'')],
       supabase = [((''a@b.c'', ''2024-01-01''), (''one'', 1, ''t''))]\<rparr>"
  have h1: "getItem (localStorage ?w) USER_EMAIL_KEY = Some ''a@b.c''"
    by (simp add: getItem_def USER_EMAIL_KEY_def)
  have h2: "''a@b.c'' \<noteq> []" by simp
  have c: "countWords ''one two three'' = 3"
    by (simp add: countWords_def trim_def is_space_def)
  show ?thesis
    using getAllEntries_tie_break [OF h1 h2, of "''2024-01-01''" True]
    by (simp add: local_count_def getItem_def LOCAL_ENTRY_PREFIX_def c)
qed

text \<open>
  C4. For a logged-in user, \<open>saveEntry\<close> of content \<open>c\<close> under a date key returns without
  an error, and \<open>getEntry\<close> of that key then returns exactly \<open>c\<close>, both when every remote
  request succeeds (the remote row then holds \<open>c\<close>) and when every remote request fails.
  The content need not have a positive word count.
\<close>

theorem save_get_round_trip:
  assumes "getItem (localStorage w) USER_EMAIL_KEY = Some email" and "email \<noteq> []"
  shows "\<exists>w'. saveEntry reachable now d c w = Inr w'
           \<and> (reachable \<longrightarrow> map_of (supabase w') (email, d) = Some (c, int (countWords c), now))
           \<and> fst (getEntry reachable d w') = Some c"
proof -
  have ne: "USER_EMAIL_KEY \<noteq> LOCAL_ENTRY_PREFIX @ d"
    using entry_key_not_email [of d] by simp
  show ?thesis
    using assms ne
    by (cases reachable)
      (simp_all add: saveEntry_def getEntry_def getItem_def setItem_def upsert_def
        select_content_def update_conv' Let_def)
qed

theorem save_get_round_trip_witness:
  "(\<exists>w'. saveEntry False ''t'' ''2024-01-01'' ''dear diary''
            \<lparr>localStorage = [(''userEmail'', ''a@b.c'')], supabase = []\<rparr> = Inr w'
         \<and> fst (getEntry False ''2024-01-01'' w') = Some ''dear diary'')"
proof -
  let ?w = "\<lparr>localStorage = [(''userEmail'', ''a@b.c'')], supabase = []\<rparr>"
  have h1: "getItem (localStorage ?w) USER_EMAIL_KEY = Some ''a@b.c''"
    by (simp add: getItem_def USER_EMAIL_KEY_def)
  have h2: "''a@b.c'' \<noteq> []" by simp
  show ?thesis
    using save_get_round_trip [OF h1 h2, of False "''t''" "''2024-01-01''" "''dear diary''"]
    by simp
qed


section \<open>Properties of the dominant subcategory\<close>

lemma reduce_last_max:
  "\<exists>pre post.
      (e :: string \<times> int) # es = pre @ foldl (\<lambda>a b. if snd a > snd b then a else b) e es # post \<and>
      (\<forall>x \<in> set pre. snd x \<le> snd (foldl (\<lambda>a b. if snd a > snd b then a else b) e es)) \<and>
      (\<forall>x \<in> set post. snd x < snd (foldl (\<lambda>a b. if snd a > snd b then a else b) e es))"
proof (induction es rule: rev_induct)
  case Nil
  show ?case by (intro exI [of _ "[]"]) simp
next
  case (snoc b es)
  define r where "r = foldl (\<lambda>a b::string \<times> int. if snd a > snd b then a else b) e es"
  have step: "foldl (\<lambda>a b::string \<times> int. if snd a > snd b then a else b) e (es @ [b]) =
      (if snd r > snd b then r else b)"
    by (simp add: r_def)
  from snoc obtain pre post where d: "e # es = pre @ r # post"
    and le: "\<forall>x \<in> set pre. snd x \<le> snd r"
    and lt: "\<forall>x \<in> set post. snd x < snd r"
    unfolding r_def by blast
  show ?case
  proof (cases "snd r > snd b")
    case True
    have "e # es @ [b] = pre @ r # (post @ [b])" using d by simp
    moreover have "\<forall>x \<in> set (post @ [b]). snd x < snd r" using lt True by simp
    ultimately show ?thesis unfolding step using le True
      by (intro exI [of _ pre] exI [of _ "post @ [b]"]) simp
  next
    case False
    have "snd x \<le> snd b" if "x \<in> set (pre @ r # post)" for x
    proof -
      from that have "x \<in> set pre \<or> x = r \<or> x \<in> set post" by auto
      then have "snd x \<le> snd r" using le lt by force
      then show ?thesis using False by simp
    qed
    then have "\<forall>x \<in> set (e # es). snd x \<le> snd b" unfolding d by blast
    moreover have "e # es @ [b] = (e # es) @ b # []" by simp
    ultimately show ?thesis unfolding step using False
      by (intro exI [of _ "e # es"] exI [of _ "[]"]) simp
  qed
qed

text \<open>
  C6, as stated: among several subcategories with the maximal count the first-encountered
  one is selected. On the source, with two subcategories sharing the maximal count 1, the
  later one is returned.
\<close>

theorem getDominantCategory_tie_counterexample:
  "getDominantCategory
     [(''Anxiety / Fear'', 1), (''Joy / Happiness'', 1), (''Sadness / Grief'', 0),
      (''Anger / Frustration'', 0), (''Love / Affection'', 0)] = ''Joy / Happiness''"
  by (simp add: getDominantCategory_def)

text \<open>
  C6, amended: when there is no subcategory or every count is zero, the result is the
  marker N/A; otherwise the selected subcategory has the greatest count, and when several
  subcategories share the greatest count the last-encountered one is selected: every
  earlier entry has a count that is at most the selected one, every later entry a
  strictly smaller count.
\<close>

theorem getDominantCategory_last_maximal:
  "(entries = [] \<or> list_all (\<lambda>(key, v). v = 0) entries \<longrightarrow> getDominantCategory entries = ''N/A'') \<and>
   (entries \<noteq> [] \<and> \<not> list_all (\<lambda>(key, v). v = 0) entries \<longrightarrow>
      (\<exists>pre v post. entries = pre @ (getDominantCategory entries, v) # post \<and>
          (\<forall>x \<in> set pre. snd x \<le> v) \<and> (\<forall>x \<in> set post. snd x < v)))"
proof (intro conjI impI)
  assume "entries = [] \<or> list_all (\<lambda>(key, v). v = 0) entries"
  then show "getDominantCategory entries = ''N/A''"
    by (cases entries) (auto simp: getDominantCategory_def)
next
  assume a: "entries \<noteq> [] \<and> \<not> list_all (\<lambda>(key, v). v = 0) entries"
  then obtain e es where Cons: "entries = e # es" by (cases entries) auto
  let ?r = "foldl (\<lambda>a b. if snd a > snd b then a else b) e es"
  from reduce_last_max [of e es] obtain pre post where d: "e # es = pre @ ?r # post"
    and le: "\<forall>x \<in> set pre. snd x \<le> snd ?r"
    and lt: "\<forall>x \<in> set post. snd x < snd ?r"
    by blast
  have "\<not> list_all (\<lambda>(key, v). v = 0) (e # es)" using a Cons by simp
  then have g: "getDominantCategory entries = fst ?r"
    unfolding Cons getDominantCategory_def by (simp only: list.case if_False)
  have "entries = pre @ (getDominantCategory entries, snd ?r) # post"
    using d Cons g by simp
  with le lt show "\<exists>pre v post. entries = pre @ (getDominantCategory entries, v) # post \<and>
          (\<forall>x \<in> set pre. snd x \<le> v) \<and> (\<forall>x \<in> set post. snd x < v)"
    by (intro exI [of _ pre] exI [of _ "snd ?r"] exI [of _ post]) simp
qed

theorem getDominantCategory_last_maximal_witness:
  "getDominantCategory [] = ''N/A'' \<and>
   (\<exists>pre v post.
      [(''Work / Career'', 0 :: int), (''Family / Home'', 3), (''Health / Wellness'', 3),
       (''Self / Personal Growth'', 1)]
        = pre @ (getDominantCategory
            [(''Work / Career'', 0), (''Family / Home'', 3), (''Health / Wellness'', 3),
             (''Self / Personal Growth'', 1)], v) # post \<and>
      (\<forall>x \<in> set pre. snd x \<le> v) \<and> (\<forall>x \<in> set post. snd x < v))"
  using getDominantCategory_last_maximal [of "[]"]
    getDominantCategory_last_maximal
      [of "[(''Work / Career'', 0), (''Family / Home'', 3), (''Health / Wellness'', 3),
            (''Self / Personal Growth'', 1)]"]
  by simp


section \<open>Properties of the word-count history\<close>

lemma series_upd [simp]: "series (store(d \<mapsto> h)) d = h"
  by (simp add: series_def)

text \<open>
  C7. Saving the same content twice in a row leaves the history store as the first save
  left it, so the second save appends nothing. The first save with a positive word count
  into an empty series stores the synthetic zero sample, stamped one second before the
  first clock reading (so earlier than the new sample when the clock does not run
  backward), followed by the sample of the new count; into a non-empty series it
  appends one sample when the count differs from the last recorded one and nothing
  otherwise. A save with word count 0 resets the series to empty. A series without two
  consecutive samples of the same word count stays so, and the series of other date keys
  are untouched.
\<close>

theorem history_idempotent_reset:
  "saveEntry_history b1 b2 d c (saveEntry_history a1 a2 d c store) = saveEntry_history a1 a2 d c store
   \<and> (0 < countWords c \<and> series store d = [] \<longrightarrow>
        series (saveEntry_history a1 a2 d c store) d =
          [\<lparr>timestamp = a1 - 1000, wordCount = 0\<rparr>, \<lparr>timestamp = a2, wordCount = countWords c\<rparr>])
   \<and> (0 < countWords c \<and> series store d \<noteq> [] \<longrightarrow>
        series (saveEntry_history a1 a2 d c store) d =
          (if wordCount (last (series store d)) = countWords c then series store d
           else series store d @ [\<lparr>timestamp = a2, wordCount = countWords c\<rparr>]))
   \<and> (0 < countWords c \<and> series store d = [] \<and> a1 \<le> a2 \<longrightarrow>
        sorted_wrt (<) (map timestamp (series (saveEntry_history a1 a2 d c store) d)))
   \<and> (countWords c = 0 \<longrightarrow> saveEntry_history a1 a2 d c store d = Some [])
   \<and> (distinct_adj (map wordCount (series store d)) \<longrightarrow>
        distinct_adj (map wordCount (series (saveEntry_history a1 a2 d c store) d)))
   \<and> (d' \<noteq> d \<longrightarrow> saveEntry_history a1 a2 d c store d' = store d')"
proof (intro conjI impI)
  show "saveEntry_history b1 b2 d c (saveEntry_history a1 a2 d c store) = saveEntry_history a1 a2 d c store"
    by (auto simp: saveEntry_history_def Let_def split: option.splits)
qed (auto simp: saveEntry_history_def series_def Let_def distinct_adj_append_iff last_map split: option.splits)

theorem history_idempotent_reset_witness:
  "series (saveEntry_history 5000 5001 ''2024-01-01'' ''hello world'' Map.empty) ''2024-01-01''
     = [\<lparr>timestamp = 4000, wordCount = 0\<rparr>, \<lparr>timestamp = 5001, wordCount = 2\<rparr>]
   \<and> series (saveEntry_history 7000 7001 ''2024-01-01'' ''hello world again''
        [''2024-01-01'' \<mapsto> [\<lparr>timestamp = 4000, wordCount = 0\<rparr>, \<lparr>timestamp = 5001, wordCount = 2\<rparr>]])
        ''2024-01-01''
     = [\<lparr>timestamp = 4000, wordCount = 0\<rparr>, \<lparr>timestamp = 5001, wordCount = 2\<rparr>,
        \<lparr>timestamp = 7001, wordCount = 3\<rparr>]
   \<and> saveEntry_history 9000 9001 ''2024-01-01'' '' ''
        [''2024-01-01'' \<mapsto> [\<lparr>timestamp = 4000, wordCount = 0\<rparr>, \<lparr>timestamp = 5001, wordCount = 2\<rparr>]]
        ''2024-01-01'' = Some []"
proof -
  have c2: "countWords ''hello world'' = 2" and c3: "countWords ''hello world again'' = 3"
    and c0: "countWords '' '' = 0"
    by (simp_all add: countWords_def trim_def is_space_def)
  show ?thesis
    using history_idempotent_reset [of 0 0 "''2024-01-01''" "''hello world''" 5000 5001 Map.empty]
      history_idempotent_reset [of 0 0 "''2024-01-01''" "''hello world again''" 7000 7001
        "[''2024-01-01'' \<mapsto> [\<lparr>timestamp = 4000, wordCount = 0\<rparr>, \<lparr>timestamp = 5001, wordCount = 2\<rparr>]]"]
      history_idempotent_reset [of 0 0 "''2024-01-01''" "'' ''" 9000 9001
        "[''2024-01-01'' \<mapsto> [\<lparr>timestamp = 4000, wordCount = 0\<rparr>, \<lparr>timestamp = 5001, wordCount = 2\<rparr>]]"]
    by (simp add: c2 c3 c0 series_def)
qed


section \<open>Properties of the streaks\<close>

lemma current_loop_spec:
  "n \<le> current_loop east ks d n \<and>
   (\<forall>i < current_loop east ks d n - n. toDateKey east (d - int i) \<in> set ks) \<and>
   toDateKey east (d - int (current_loop east ks d n - n)) \<notin> set ks"
proof (induction east ks d n rule: current_loop.induct)
  case (1 east ks d n)
  show ?case
  proof (cases "toDateKey east d \<in> set ks")
    case False
    then show ?thesis by (simp add: current_loop.simps [of east ks d n])
  next
    case True
    define m where "m = current_loop east ks (d - 1) (n + 1)"
    have m: "current_loop east ks d n = m"
      using True by (simp add: current_loop.simps [of east ks d n] m_def)
    from 1 [OF True, folded m_def] have ge: "n + 1 \<le> m"
      and run: "\<forall>i < m - (n + 1). toDateKey east (d - 1 - int i) \<in> set ks"
      and stop: "toDateKey east (d - 1 - int (m - (n + 1))) \<notin> set ks"
      by blast+
    have r: "toDateKey east (d - int i) \<in> set ks" if "i < m - n" for i
    proof (cases i)
      case 0
      then show ?thesis using True by simp
    next
      case (Suc j)
      then have "j < m - (n + 1)" using that by simp
      then have "toDateKey east (d - 1 - int j) \<in> set ks" using run by simp
      moreover have "d - 1 - int j = d - int i" using Suc by simp
      ultimately show ?thesis by simp
    qed
    have eq: "d - 1 - int (m - (n + 1)) = d - int (m - n)"
      using ge by (simp add: of_nat_diff)
    have s: "toDateKey east (d - int (m - n)) \<notin> set ks" using stop [unfolded eq] .
    have g: "n \<le> m" using ge by simp
    show ?thesis unfolding m using g r s by blast
  qed
qed

lemma toDateKey_fixed_offset:
  assumes "\<And>d. east d = e"
  shows "toDateKey east (d - int i) = toDateKey east d - int i"
  by (simp add: toDateKey_def assms)

lemma all_present_mono: "all_present P a m \<Longrightarrow> P \<subseteq> Q \<Longrightarrow> all_present Q a m"
  by (auto simp: all_present_def)

lemma all_present_shorter: "all_present P a m \<Longrightarrow> k \<le> m \<Longrightarrow> all_present P a k"
  by (auto simp: all_present_def)

text \<open>A run that ends at \<open>x\<close> cannot be longer than \<open>c\<close> when the day \<open>x - c\<close> is missing.\<close>

lemma run_ending_le:
  assumes "all_present P a m" and "a + int m - 1 = x" and "x - int c \<notin> P"
  shows "m \<le> c"
proof (rule ccontr)
  assume "\<not> m \<le> c"
  then have "m - 1 - c < m" by simp
  then have "a + int (m - 1 - c) \<in> P" using assms(1) unfolding all_present_def by blast
  moreover have "a + int (m - 1 - c) = x - int c"
    using assms(2) \<open>\<not> m \<le> c\<close> by (simp add: of_nat_diff)
  ultimately show False using assms(3) by simp
qed

text \<open>A run inside a set bounded by \<open>y\<close> that contains \<open>y\<close> ends at \<open>y\<close>.\<close>

lemma run_through_top:
  assumes "all_present P a m" and "\<forall>p \<in> P. p \<le> y" and "a \<le> y" and "y < a + int m"
  shows "a + int m - 1 = y"
proof -
  have "0 < m" using assms(3,4) by simp
  then have "m - 1 < m" by simp
  then have "a + int (m - 1) \<in> P" using assms(1) unfolding all_present_def by blast
  then have "a + int (m - 1) \<le> y" using assms(2) by blast
  then show ?thesis using assms(4) \<open>0 < m\<close> by (simp add: of_nat_diff)
qed

lemma run_avoiding:
  assumes "all_present (insert y P) a m" and "y < a \<or> a + int m \<le> y"
  shows "all_present P a m"
  using assms by (fastforce simp: all_present_def)

lemma longest_step:
  assumes bound: "\<forall>p \<in> P. p \<le> x" and xy: "x < y" and xin: "x \<in> P" and c1: "1 \<le> c"
    and run: "all_present P (x - int c + 1) c" and stop: "x - int c \<notin> P"
    and mx: "max_run P l" and cl: "c \<le> l"
    and c': "c' = (if y - x = 1 then c + 1 else 1)"
    and l': "l' = (if c' > l then c' else l)"
  shows "all_present (insert y P) (y - int c' + 1) c'"
    and "y - int c' \<notin> insert y P"
    and "max_run (insert y P) l'"
    and "c' \<le> l'" and "1 \<le> c'"
proof -
  show c'1: "1 \<le> c'" using c' by simp
  show "c' \<le> l'" using l' by simp
  show runy: "all_present (insert y P) (y - int c' + 1) c'"
  proof (cases "y - x = 1")
    case True
    then have y: "y = x + 1" and c'': "c' = c + 1" using c' by simp_all
    show ?thesis
      unfolding all_present_def
    proof (intro allI impI)
      fix i assume i: "i < c'"
      show "y - int c' + 1 + int i \<in> insert y P"
      proof (cases "i = c")
        case True
        then show ?thesis using y c'' by simp
      next
        case False
        then have "i < c" using i c'' by simp
        then have "x - int c + 1 + int i \<in> P" using run by (simp add: all_present_def)
        then show ?thesis using y c'' by (simp add: algebra_simps)
      qed
    qed
  next
    case False
    then show ?thesis using c' by (simp add: all_present_def)
  qed
  show stopy: "y - int c' \<notin> insert y P"
  proof (cases "y - x = 1")
    case True
    then have "y - int c' = x - int c" using c' by simp
    moreover have "y - int c' \<noteq> y" using c'1 by simp
    ultimately show ?thesis using stop by simp
  next
    case False
    then have "y - 1 > x" using xy by simp
    then have "y - 1 \<notin> P" using bound by fastforce
    then show ?thesis using False c' by simp
  qed
  have ybound: "\<forall>p \<in> insert y P. p \<le> y" using bound xy by fastforce
  have upper: "m \<le> l'" if r: "all_present (insert y P) a m" for a m
  proof (cases "y < a \<or> a + int m \<le> y")
    case True
    then have "all_present P a m" using r by (rule run_avoiding [rotated])
    then have "m \<le> l" using mx by (simp add: max_run_def)
    then show ?thesis using l' by simp
  next
    case False
    then have "a + int m - 1 = y"
      using run_through_top [OF r ybound] by simp
    then have "m \<le> c'" using run_ending_le [OF r _ stopy] by simp
    then show ?thesis using l' by simp
  qed
  have ex: "\<exists>a. all_present (insert y P) a l'"
  proof (cases "c' > l")
    case True
    then show ?thesis using runy l' by auto
  next
    case False
    from mx obtain a where "all_present P a l" by (auto simp: max_run_def)
    then have "all_present (insert y P) a l" by (rule all_present_mono) auto
    then show ?thesis using False l' by auto
  qed
  show "max_run (insert y P) l'"
    unfolding max_run_def using ex upper by blast
qed

lemma longest_loop_spec:
  assumes "sorted_wrt (<) (x # xs)" and "\<forall>p \<in> P. p \<le> x" and "x \<in> P" and "1 \<le> c"
    and "all_present P (x - int c + 1) c" and "x - int c \<notin> P"
    and "max_run P l" and "c \<le> l"
  shows "max_run (P \<union> set xs) (longest_loop (x # xs) c l)"
  using assms
proof (induction xs arbitrary: x c l P)
  case Nil
  then show ?case by simp
next
  case (Cons y ys)
  define c' where "c' = (if y - x = 1 then c + 1 else 1)"
  define l' where "l' = (if c' > l then c' else l)"
  have xy: "x < y" using Cons.prems(1) by simp
  note st = longest_step [OF Cons.prems(2) xy Cons.prems(3-8) c'_def l'_def]
  have sorted: "sorted_wrt (<) (y # ys)" using Cons.prems(1) by simp
  have ybound: "\<forall>p \<in> insert y P. p \<le> y" using Cons.prems(2) xy by fastforce
  have "max_run (insert y P \<union> set ys) (longest_loop (y # ys) c' l')"
    by (rule Cons.IH [OF sorted ybound _ st(5) st(1) st(2) st(3) st(4)]) simp
  moreover have "longest_loop (x # y # ys) c l = longest_loop (y # ys) c' l'"
    by (simp add: c'_def l'_def Let_def)
  moreover have "insert y P \<union> set ys = P \<union> set (y # ys)" by simp
  ultimately show ?case by simp
qed

lemma max_run_empty: "max_run {} 0"
  by (auto simp: max_run_def all_present_def)

lemma max_run_single: "max_run {x} 1"
proof -
  have "all_present {x} x 1" by (simp add: all_present_def)
  moreover have "m \<le> 1" if "all_present {x} a m" for a m
  proof (rule ccontr)
    assume "\<not> m \<le> 1"
    then have "0 < m" and "1 < m" by simp_all
    then have "a + int 0 \<in> {x}" and "a + int 1 \<in> {x}"
      using that unfolding all_present_def by blast+
    then show False by simp
  qed
  ultimately show ?thesis unfolding max_run_def by blast
qed

lemma current_streak_spec:
  assumes "\<And>d. east d = e"
  shows "(\<forall>i < currentStreak (calculateStreaks east ks today). toDateKey east today - int i \<in> set ks) \<and>
   toDateKey east today - int (currentStreak (calculateStreaks east ks today)) \<notin> set ks"
proof (cases "ks = []")
  case True
  then show ?thesis by (simp add: calculateStreaks_def)
next
  case False
  then have "currentStreak (calculateStreaks east ks today) = current_loop east ks today 0"
    by (simp add: calculateStreaks_def Let_def)
  then show ?thesis
    using current_loop_spec [of 0 east ks today]
    by (simp add: toDateKey_fixed_offset [OF assms])
qed

lemma longest_streak_spec:
  assumes "distinct ks"
  shows "max_run (set ks) (longestStreak (calculateStreaks east ks today))"
proof (cases "ks = []")
  case True
  then show ?thesis by (simp add: calculateStreaks_def max_run_empty)
next
  case False
  then have "sort ks \<noteq> []" by (metis length_sort length_0_conv)
  then obtain x xs where xs: "sort ks = x # xs" by (cases "sort ks") auto
  have l: "longestStreak (calculateStreaks east ks today) = longest_loop (x # xs) 1 1"
    using False xs by (simp add: calculateStreaks_def Let_def)
  have "sorted_wrt (<) (sort ks)"
    using assms by (simp add: strict_sorted_iff)
  then have st: "sorted_wrt (<) (x # xs)" by (simp only: xs)
  have "max_run ({x} \<union> set xs) (longest_loop (x # xs) 1 1)"
  proof (rule longest_loop_spec [OF st])
    show "all_present {x} (x - int 1 + 1) 1" by (simp add: all_present_def)
    show "max_run {x} 1" by (rule max_run_single)
  qed simp_all
  moreover have "{x} \<union> set xs = set ks"
    using xs by (metis insert_is_Un list.simps(15) set_sort)
  ultimately show ?thesis by (simp add: l)
qed

text \<open>
  On a host whose offset from UTC keeps its sign (\<open>east\<close> is constant), the keys tested
  are those of consecutive days ending at the key \<open>t\<close> of today, and for distinct date
  keys the streaks are as intended: the current streak is the number of consecutive present
  days ending at \<open>t\<close> and the longest streak the greatest length of a run of consecutive
  present days.
\<close>

lemma calculateStreaks_fixed_offset:
  assumes "distinct entryKeys" and fixed: "\<And>d. east d = e" and t: "t = toDateKey east today"
  shows "(\<forall>i < currentStreak (calculateStreaks east entryKeys today). t - int i \<in> set entryKeys)
    \<and> t - int (currentStreak (calculateStreaks east entryKeys today)) \<notin> set entryKeys
    \<and> (t \<notin> set entryKeys \<longrightarrow> currentStreak (calculateStreaks east entryKeys today) = 0)
    \<and> max_run (set entryKeys) (longestStreak (calculateStreaks east entryKeys today))
    \<and> (set entryKeys = {t, t - 1, t - 2} \<longrightarrow>
          calculateStreaks east entryKeys today = \<lparr>currentStreak = 3, longestStreak = 3\<rparr>)
    \<and> (set entryKeys = {t, t - 1, t - 2, t - 6} \<longrightarrow>
          calculateStreaks east entryKeys today = \<lparr>currentStreak = 3, longestStreak = 3\<rparr>)"
proof -
  define n where "n = currentStreak (calculateStreaks east entryKeys today)"
  define l where "l = longestStreak (calculateStreaks east entryKeys today)"
  have r: "calculateStreaks east entryKeys today = \<lparr>currentStreak = n, longestStreak = l\<rparr>"
    by (simp add: n_def l_def)
  have cur: "\<forall>i < n. t - int i \<in> set entryKeys" and stop: "t - int n \<notin> set entryKeys"
    using current_streak_spec [OF fixed, where ks = entryKeys and today = today] by (simp_all add: n_def t)
  have mx: "max_run (set entryKeys) l"
    using longest_streak_spec [OF assms(1)] by (simp add: l_def)
  have zero: "n = 0" if "t \<notin> set entryKeys"
  proof (rule ccontr)
    assume "n \<noteq> 0"
    then have "t - int 0 \<in> set entryKeys" using cur by blast
    then show False using that by simp
  qed
  have three: "n = 3 \<and> l = 3"
    if S: "set entryKeys = {t, t - 1, t - 2} \<or>
           set entryKeys = {t, t - 1, t - 2, t - 6}"
  proof
    have in0: "t \<in> set entryKeys" and in1: "t - 1 \<in> set entryKeys"
      and in2: "t - 2 \<in> set entryKeys"
      using S by auto
    have mem: "d = t \<or> d = t - 1 \<or> d = t - 2 \<or> d = t - 6"
      if "d \<in> set entryKeys" for d
      using S that by auto
    have "\<not> 3 < n"
    proof
      assume "3 < n"
      then have "t - int 3 \<in> set entryKeys" using cur by blast
      then show False using mem [of "t - int 3"] by simp
    qed
    moreover have "n \<noteq> 0" using stop in0 by (cases "n = 0") simp_all
    moreover have "n \<noteq> 1" using stop in1 by (cases "n = 1") simp_all
    moreover have "n \<noteq> 2" using stop in2 by (cases "n = 2") simp_all
    ultimately show "n = 3" by arith
    have "all_present (set entryKeys) (t - 2) 3"
      unfolding all_present_def
    proof (intro allI impI)
      fix i :: nat assume "i < 3"
      then have "i = 0 \<or> i = 1 \<or> i = 2" by arith
      then show "t - 2 + int i \<in> set entryKeys" using in0 in1 in2 by (elim disjE) simp_all
    qed
    then have "3 \<le> l" using mx by (simp add: max_run_def)
    moreover have "\<not> 3 < l"
    proof
      assume "3 < l"
      from mx obtain a where a: "all_present (set entryKeys) a l" by (auto simp: max_run_def)
      have "0 < l" and "1 < l" and "3 < l" using \<open>3 < l\<close> by simp_all
      then have "a + int 0 \<in> set entryKeys" and "a + int 1 \<in> set entryKeys"
        and "a + int 3 \<in> set entryKeys"
        using a unfolding all_present_def by blast+
      then have "a \<in> set entryKeys" and "a + 1 \<in> set entryKeys" and "a + 3 \<in> set entryKeys"
        by simp_all
      then show False using mem [of a] mem [of "a + 1"] mem [of "a + 3"] by arith
    qed
    ultimately show "l = 3" by arith
  qed
  show ?thesis
    unfolding r n_def [symmetric] l_def [symmetric]
    using cur stop zero mx three by simp
qed

lemma current_le_longest_fixed_offset:
  assumes "distinct entryKeys" and fixed: "\<And>d. east d = e"
  shows "currentStreak (calculateStreaks east entryKeys today) \<le> longestStreak (calculateStreaks east entryKeys today)
    \<and> (entryKeys = [] \<longrightarrow> calculateStreaks east entryKeys today = \<lparr>currentStreak = 0, longestStreak = 0\<rparr>)"
proof -
  define t where "t = toDateKey east today"
  define n where "n = currentStreak (calculateStreaks east entryKeys today)"
  have cur: "\<forall>i < n. t - int i \<in> set entryKeys"
    using current_streak_spec [OF fixed, where ks = entryKeys and today = today] by (simp add: n_def t_def)
  have "all_present (set entryKeys) (t - int n + 1) n"
    unfolding all_present_def
  proof (intro allI impI)
    fix i assume i: "i < n"
    then have "n - 1 - i < n" by simp
    then have "t - int (n - 1 - i) \<in> set entryKeys" using cur by blast
    moreover have "t - int (n - 1 - i) = t - int n + 1 + int i"
      using i by (simp add: of_nat_diff)
    ultimately show "t - int n + 1 + int i \<in> set entryKeys" by (simp only:)
  qed
  then have "n \<le> longestStreak (calculateStreaks east entryKeys today)"
    using longest_streak_spec [OF assms(1), where east = east and today = today] by (simp add: max_run_def)
  then show ?thesis by (simp add: n_def calculateStreaks_def)
qed

text \<open>
  C5. The claim: the current streak is the number of consecutive days ending at today that
  are all present. Evaluated for a host in the time zone Europe/London on 2024-10-28 (day
  20024), where the offset from UTC is positive at the local midnights of 2024-04-01 to
  2024-10-27 (days 19814 to 20023), with entries on 2024-10-28, 2024-10-26 and 2024-10-25
  (days 20024, 20022, 20021): the local midnights of 10-27 and 10-26 print as the keys of
  10-26 and 10-25, so the walk finds three keys present and the current streak is 3,
  although the day 10-27 has no entry; the longest streak is 2.
\<close>

theorem calculateStreaks_skips_absent_day:
  "calculateStreaks (\<lambda>d. 19814 \<le> d \<and> d \<le> 20023) [20024, 20022, 20021] 20024 =
     \<lparr>currentStreak = 3, longestStreak = 2\<rparr>
   \<and> 20023 \<notin> set [20024, 20022, 20021 :: int]"
  by code_simp

text \<open>
  C10. The claim: the current streak never exceeds the longest streak. Evaluated for a
  host in the time zone Europe/London on 2024-04-01 (day 19814), with entries on
  2024-03-31 and 2024-03-30 (days 19813, 19812): the local midnights of 04-01 and of 03-31
  both print as the key of 03-31, which is counted twice, so the current streak is 3 and
  exceeds the longest streak 2.
\<close>

theorem calculateStreaks_current_exceeds_longest:
  "calculateStreaks (\<lambda>d. 19814 \<le> d \<and> d \<le> 20023) [19813, 19812] 19814 =
     \<lparr>currentStreak = 3, longestStreak = 2\<rparr>"
  by code_simp


section \<open>Properties of the text analyzer\<close>

lemma toLowerCase_example:
  "toLowerCase ''I am anxious and scared today'' = ''i am anxious and scared today''"
  by code_simp

lemma is_word_char_example:
  "is_word_char CHR '' '' = False"
  "is_word_char CHR ''a'' = True" "is_word_char CHR ''c'' = True" "is_word_char CHR ''d'' = True"
  "is_word_char CHR ''e'' = True" "is_word_char CHR ''i'' = True" "is_word_char CHR ''m'' = True"
  "is_word_char CHR ''n'' = True" "is_word_char CHR ''o'' = True" "is_word_char CHR ''r'' = True"
  "is_word_char CHR ''s'' = True" "is_word_char CHR ''t'' = True" "is_word_char CHR ''u'' = True"
  "is_word_char CHR ''x'' = True" "is_word_char CHR ''y'' = True"
  by (simp_all add: is_word_char_def)

lemma analyzeText_example:
  "analyzeText ''I am anxious and scared today'' =
    [(''feeling'',
      [(''Anxiety / Fear'', 2), (''Joy / Happiness'', 0), (''Sadness / Grief'', 0),
       (''Anger / Frustration'', 0), (''Love / Affection'', 0)]),
     (''topic'',
      [(''Work / Career'', 0), (''Family / Home'', 0), (''Health / Wellness'', 0),
       (''Self / Personal Growth'', 1)]),
     (''mindset'',
      [(''Positive'', 0), (''Negative'', 0), (''Certain'', 0), (''Uncertain'', 0)]),
     (''time'', [(''Past'', 0), (''Present'', 2), (''Future'', 0)]),
     (''perspective'',
      [(''I (Self-focused)'', 1), (''We (Group-focused)'', 0), (''Them (Other-focused)'', 0)])]"
  unfolding analyzeText_def toLowerCase_example ANALYSIS_KEYWORDS_def
  by (simp add: matches_here_def word_at_def is_word_char_example)

lemma foldl_count_nonneg:
  "0 \<le> a \<Longrightarrow> 0 \<le> foldl (\<lambda>count keyword. count + int (f keyword)) a kws"
  by (induction kws arbitrary: a) simp_all

lemma analyzeText_nonneg:
  assumes "(category, subs) \<in> set (analyzeText text)" and "(subCategory, n) \<in> set subs"
  shows "0 \<le> n"
  using assms by (auto simp: analyzeText_def foldl_count_nonneg)

text \<open>
  C8. For the text "I am anxious and scared today" the analyzer counts 2 for the
  subcategory Anxiety / Fear of the category feeling (anxious, scared) and 2 for the
  subcategory Present of the category time (am, today), which meets the bounds 2 and 1 of
  the claim; the whole result is given. For every text, every count of the result is a
  non-negative integer. The analyzer is a function of the text alone: it reads nothing
  but its argument and the constant lexicon, so equal texts give equal results.
\<close>

theorem analyzeText_anxious_scared:
  "analyzeText ''I am anxious and scared today'' =
    [(''feeling'',
      [(''Anxiety / Fear'', 2), (''Joy / Happiness'', 0), (''Sadness / Grief'', 0),
       (''Anger / Frustration'', 0), (''Love / Affection'', 0)]),
     (''topic'',
      [(''Work / Career'', 0), (''Family / Home'', 0), (''Health / Wellness'', 0),
       (''Self / Personal Growth'', 1)]),
     (''mindset'',
      [(''Positive'', 0), (''Negative'', 0), (''Certain'', 0), (''Uncertain'', 0)]),
     (''time'', [(''Past'', 0), (''Present'', 2), (''Future'', 0)]),
     (''perspective'',
      [(''I (Self-focused)'', 1), (''We (Group-focused)'', 0), (''Them (Other-focused)'', 0)])]
   \<and> (\<forall>text category subs subCategory n.
         (category, subs) \<in> set (analyzeText text) \<and> (subCategory, n) \<in> set subs \<longrightarrow> 0 \<le> n)"
  using analyzeText_example analyzeText_nonneg by blast

theorem analyzeText_anxious_scared_witness:
  "(''time'', [(''Past'', 0), (''Present'', 2), (''Future'', 0)])
      \<in> set (analyzeText ''I am anxious and scared today'')
   \<and> (''Present'', 2) \<in> set [(''Past'', 0), (''Present'', 2 :: int), (''Future'', 0)]
   \<and> (0 :: int) \<le> 2"
  using analyzeText_anxious_scared by simp


section \<open>Properties of the word cloud\<close>

lemma is_az_word: "is_az c \<Longrightarrow> is_word_char c"
  by (simp add: is_az_def is_word_char_def Let_def)

lemma try_len_None_iff:
  "try_len s n = None \<longleftrightarrow>
     (\<forall>k \<le> n. 3 \<le> k \<longrightarrow> word_at (rev (take k s)) = word_at (drop k s))"
proof (induction n)
  case 0
  then show ?case by simp
next
  case (Suc n)
  have "(\<forall>k \<le> Suc n. 3 \<le> k \<longrightarrow> word_at (rev (take k s)) = word_at (drop k s)) \<longleftrightarrow>
      (3 \<le> Suc n \<longrightarrow> word_at (rev (take (Suc n) s)) = word_at (drop (Suc n) s)) \<and>
      (\<forall>k \<le> n. 3 \<le> k \<longrightarrow> word_at (rev (take k s)) = word_at (drop k s))"
    by (metis le_Suc_eq)
  then show ?case using Suc by simp
qed

lemma try_len_top:
  "3 \<le> n \<Longrightarrow> word_at (rev (take n s)) \<noteq> word_at (drop n s) \<Longrightarrow> try_len s n = Some n"
  by (cases n) simp_all

lemma boundary_inside:
  assumes w: "\<forall>c \<in> set w. is_word_char c" and rest: "rest = [] \<or> \<not> is_word_char (hd rest)"
    and k: "0 < k" "k \<le> length w"
  shows "word_at (rev (take k (w @ rest))) \<noteq> word_at (drop k (w @ rest)) \<longleftrightarrow> k = length w"
proof -
  have "take k w \<noteq> []" using k by auto
  then obtain x xs where x: "rev (take k w) = x # xs" by (cases "rev (take k w)") auto
  then have "x \<in> set (take k w)" by (metis list.set_intros(1) set_rev)
  then have "x \<in> set w" by (rule in_set_takeD)
  then have before: "word_at (rev (take k (w @ rest)))"
    using w k x by (simp add: word_at_def)
  have rest': "\<not> word_at rest" using rest by (cases rest) (auto simp: word_at_def)
  show ?thesis
  proof (cases "k = length w")
    case True
    then show ?thesis using before rest' by simp
  next
    case False
    then have "k < length w" using k by simp
    then have "drop k w = w ! k # drop (Suc k) w" by (simp add: Cons_nth_drop_Suc)
    moreover have "is_word_char (w ! k)" using w \<open>k < length w\<close> by simp
    ultimately have "word_at (drop k (w @ rest))" by (simp add: word_at_def)
    then show ?thesis using before False by simp
  qed
qed

lemma takeWhile_az_run:
  assumes rest: "rest = [] \<or> \<not> is_word_char (hd rest)"
  shows "takeWhile is_az (w @ rest) = takeWhile is_az w"
proof (cases "\<forall>c \<in> set w. is_az c")
  case True
  have tr: "takeWhile is_az rest = []"
    using rest is_az_word by (cases rest) auto
  have tw: "takeWhile is_az w = w" using True by (metis takeWhile_eq_all_conv)
  have "takeWhile is_az (w @ rest) = w @ takeWhile is_az rest"
    using True by (simp add: takeWhile_append2)
  also have "\<dots> = w" using tr by simp
  also have "\<dots> = takeWhile is_az w" by (rule tw [symmetric])
  finally show ?thesis .
next
  case False
  then obtain c where "c \<in> set w" "\<not> is_az c" by blast
  then show ?thesis by (simp add: takeWhile_append1)
qed

lemma match_word_run:
  assumes w: "\<forall>c \<in> set w. is_word_char c" and ne: "w \<noteq> []"
    and rest: "rest = [] \<or> \<not> is_word_char (hd rest)"
  shows "match_word False (w @ rest) =
     (if 3 \<le> length w \<and> list_all is_az w then Some (length w) else None)"
proof -
  define n where "n = length (takeWhile is_az w)"
  have start: "word_at (w @ rest)" using w ne by (cases w) (auto simp: word_at_def)
  have mw: "match_word False (w @ rest) = try_len (w @ rest) n"
    using start by (simp add: match_word_def n_def takeWhile_az_run [OF rest])
  have nle: "n \<le> length w" by (simp add: n_def length_takeWhile_le)
  have all: "list_all is_az w \<longleftrightarrow> n = length w"
  proof
    assume "list_all is_az w"
    then have "takeWhile is_az w = w" by (metis list_all_iff takeWhile_eq_all_conv)
    then show "n = length w" by (simp only: n_def)
  next
    assume "n = length w"
    then have "takeWhile is_az w = w"
      using takeWhile_eq_take [of is_az w] by (simp only: n_def take_all order_refl)
    then show "list_all is_az w" by (metis list_all_iff takeWhile_eq_all_conv)
  qed
  show ?thesis
  proof (cases "3 \<le> length w \<and> list_all is_az w")
    case True
    then have n: "n = length w" and n3: "3 \<le> n" using all by simp_all
    have "word_at (rev (take n (w @ rest))) \<noteq> word_at (drop n (w @ rest))"
      using boundary_inside [OF w rest, of n] n n3 ne by simp
    then show ?thesis using True mw n3 n by (simp add: try_len_top)
  next
    case False
    have "word_at (rev (take k (w @ rest))) = word_at (drop k (w @ rest))"
      if "k \<le> n" "3 \<le> k" for k
    proof -
      have "k \<noteq> length w" using False that all nle by auto
      moreover have "0 < k" "k \<le> length w" using that nle by simp_all
      ultimately show ?thesis using boundary_inside [OF w rest, of k] by simp
    qed
    then have "try_len (w @ rest) n = None" by (simp add: try_len_None_iff)
    then show ?thesis using False mw by simp
  qed
qed

lemma match_words_skip:
  "length xs = k \<Longrightarrow> xs \<noteq> [] \<Longrightarrow>
   match_words p k (xs @ ys) = match_words (is_word_char (last xs)) 0 ys"
proof (induction xs arbitrary: p k)
  case Nil
  then show ?case by simp
next
  case (Cons x xs)
  show ?case
  proof (cases "xs = []")
    case True
    then show ?thesis using Cons.prems by (cases ys) simp_all
  next
    case False
    then have "match_words (is_word_char x) (k - 1) (xs @ ys) = match_words (is_word_char (last xs)) 0 ys"
      using Cons.IH [of "k - 1" "is_word_char x"] Cons.prems by simp
    then show ?thesis using Cons.prems False by auto
  qed
qed

lemma match_words_inside:
  "\<forall>c \<in> set w. is_word_char c \<Longrightarrow> match_words True 0 (w @ rest) = match_words True 0 rest"
  by (induction w) (simp_all add: match_word_def word_at_def)

lemma match_words_rest:
  assumes "rest = [] \<or> \<not> is_word_char (hd rest)"
  shows "match_words p 0 rest = match_words False 0 rest"
proof (cases rest)
  case Nil
  then show ?thesis by simp
next
  case (Cons d ds)
  then have "\<not> is_az d" using assms is_az_word by auto
  then have "match_word q (d # ds) = None" for q
    by (simp add: match_word_def)
  then show ?thesis using Cons by simp
qed

lemma match_words_run:
  assumes w: "\<forall>c \<in> set w. is_word_char c" and ne: "w \<noteq> []"
    and rest: "rest = [] \<or> \<not> is_word_char (hd rest)"
  shows "match_words False 0 (w @ rest) =
     (if 3 \<le> length w \<and> list_all is_az w then w # match_words False 0 rest
      else match_words False 0 rest)"
proof -
  obtain c w' where cw: "w = c # w'" using ne by (cases w) auto
  have wc: "is_word_char c" and w': "\<forall>c \<in> set w'. is_word_char c" using w cw by simp_all
  show ?thesis
  proof (cases "3 \<le> length w \<and> list_all is_az w")
    case True
    then have m: "match_word False (c # w' @ rest) = Some (length w)"
      using match_word_run [OF w ne rest] cw by simp
    have w'ne: "w' \<noteq> []" using True cw by auto
    have "match_words False 0 (w @ rest) =
        take (length w) (w @ rest) # match_words (is_word_char c) (length w - 1) (w' @ rest)"
      using m cw by simp
    also have "take (length w) (w @ rest) = w" by simp
    also have "match_words (is_word_char c) (length w - 1) (w' @ rest) =
        match_words (is_word_char (last w')) 0 rest"
      by (rule match_words_skip) (simp_all add: cw w'ne)
    also have "\<dots> = match_words False 0 rest" by (rule match_words_rest [OF rest])
    finally show ?thesis using True by simp
  next
    case False
    then have m: "match_word False (c # w' @ rest) = None"
      using match_word_run [OF w ne rest] cw by simp
    have "match_words False 0 (w @ rest) = match_words True 0 (w' @ rest)"
      using m cw wc by simp
    also have "\<dots> = match_words True 0 rest" by (rule match_words_inside [OF w'])
    also have "\<dots> = match_words False 0 rest" by (rule match_words_rest [OF rest])
    finally show ?thesis using False by simp
  qed
qed

lemma match_words_whole_words: "match_words False 0 s = whole_word_tokens s"
  unfolding whole_word_tokens_def
proof (induction is_word_char s rule: runs.induct)
  case 1
  then show ?case by simp
next
  case (2 c cs)
  show ?case
  proof (cases "is_word_char c")
    case False
    then have "match_word False (c # cs) = None" by (simp add: match_word_def word_at_def)
    then show ?thesis using False 2 by simp
  next
    case True
    define w where "w = c # takeWhile is_word_char cs"
    define rest where "rest = dropWhile is_word_char cs"
    have s: "c # cs = w @ rest" by (simp add: w_def rest_def)
    have w: "\<forall>c \<in> set w. is_word_char c"
      using True by (auto simp: w_def dest: set_takeWhileD)
    have rest: "rest = [] \<or> \<not> is_word_char (hd rest)"
      unfolding rest_def using hd_dropWhile by blast
    have ne: "w \<noteq> []" by (simp add: w_def)
    have IH: "match_words False 0 rest =
        filter (\<lambda>w. 3 \<le> length w \<and> list_all is_az w) (runs is_word_char rest)"
      using 2(1) [OF True] by (simp add: rest_def)
    have "runs is_word_char (c # cs) = w # runs is_word_char rest"
      using True by (simp add: w_def rest_def)
    then show ?thesis
      unfolding s using match_words_run [OF w ne rest] IH by simp
  qed
qed

lemma set_first_seen [simp]: "set (first_seen xs) = set xs"
  by (induction xs) auto

lemma distinct_first_seen [simp]: "distinct (first_seen xs)"
  by (induction xs) auto

lemma first_seen_snoc:
  "first_seen (xs @ [w]) = (if w \<in> set xs then first_seen xs else first_seen xs @ [w])"
  by (induction xs) auto

lemma update_keyed_map:
  "distinct ks \<Longrightarrow>
   AList.update w v (map (\<lambda>k. (k, g k)) ks) =
     (if w \<in> set ks then map (\<lambda>k. (k, if k = w then v else g k)) ks
      else map (\<lambda>k. (k, g k)) ks @ [(w, v)])"
  by (induction ks) auto

lemma map_of_keyed_map:
  "map_of (map (\<lambda>k. (k, g k)) ks) w = (if w \<in> set ks then Some (g w) else None)"
  by (induction ks) auto

lemma foldl_count_word:
  "foldl count_word m ws = foldl bump m (filter (\<lambda>w. w \<notin> set STOP_WORDS) ws)"
  by (induction ws arbitrary: m) (simp_all add: count_word_def bump_def)

lemma foldl_bump:
  "foldl bump [] ws = map (\<lambda>w. (w, count_list ws w)) (first_seen ws)"
proof (induction ws rule: rev_induct)
  case Nil
  then show ?case by simp
next
  case (snoc w ws)
  have step: "foldl bump [] (ws @ [w]) = bump (map (\<lambda>v. (v, count_list ws v)) (first_seen ws)) w"
    using snoc by simp
  show ?case
    unfolding step
    by (cases "w \<in> set ws")
      (auto simp: bump_def update_keyed_map map_of_keyed_map first_seen_snoc)
qed

lemma wordCounts_spec:
  "foldl count_word [] (match_words False 0 (toLowerCase text)) = cloud_counts text"
  by (simp add: foldl_count_word foldl_bump cloud_counts_def cloud_terms_def match_words_whole_words)

lemma sorted_desc_bounds:
  fixes xs :: "('a \<times> nat) list"
  assumes "sorted_wrt (\<lambda>a b. snd b \<le> snd a) xs" and "e \<in> set xs"
  shows "snd (last xs) \<le> snd e \<and> snd e \<le> snd (hd xs)"
  using assms
proof (induction xs)
  case Nil
  then show ?case by simp
next
  case (Cons x xs)
  show ?case
  proof (cases "xs = []")
    case True
    then show ?thesis using Cons.prems by simp
  next
    case False
    then have lx: "last xs \<in> set xs" by simp
    have hd_ge: "\<forall>y \<in> set xs. snd y \<le> snd x" using Cons.prems(1) by simp
    show ?thesis
    proof (cases "e = x")
      case True
      then show ?thesis using False hd_ge lx by simp
    next
      case neq: False
      then have "e \<in> set xs" using Cons.prems(2) by simp
      then have "snd (last xs) \<le> snd e" using Cons.IH Cons.prems(1) by simp
      then show ?thesis using False hd_ge \<open>e \<in> set xs\<close> by simp
    qed
  qed
qed

lemma font_size_bounds:
  assumes "lo \<le> c" and "c \<le> hi"
  shows "16 \<le> font_size lo hi c \<and> font_size lo hi c \<le> 36"
proof (cases "lo < hi")
  case False
  then show ?thesis by (simp add: font_size_def)
next
  case True
  define r :: rat where "r = (of_nat c - of_nat lo) / (of_nat hi - of_nat lo)"
  have pos: "(0 :: rat) < of_nat hi - of_nat lo" using True by simp
  have "(0 :: rat) \<le> of_nat c - of_nat lo" using assms(1) by simp
  then have r0: "0 \<le> r" using pos by (simp add: r_def)
  have "(of_nat c :: rat) - of_nat lo \<le> of_nat hi - of_nat lo" using assms(2) by simp
  then have r1: "r \<le> 1" using pos by (simp add: r_def)
  have "font_size lo hi c = 16 + r * 20" using True by (simp add: font_size_def r_def)
  then show ?thesis using r0 r1 by simp
qed

lemma distinct_cloud_counts: "distinct (cloud_counts text)"
  by (simp add: cloud_counts_def distinct_map inj_on_def)

lemma ranked_sorted:
  "sorted_wrt (\<lambda>a b. snd b \<le> snd a) (sort_key (\<lambda>(w, count). - int count) (xs :: (string \<times> nat) list))"
proof -
  have "sorted (map (\<lambda>(w, count). - int count) (sort_key (\<lambda>(w, count). - int count) xs))"
    by (rule sorted_sort_key)
  then have "sorted_wrt (\<lambda>a b. (case a of (w, count) \<Rightarrow> - int count) \<le> (case b of (w, count) \<Rightarrow> - int count))
      (sort_key (\<lambda>(w, count). - int count) xs)"
    by (simp add: sorted_map)
  then show ?thesis
    by (rule sorted_wrt_mono_rel [rotated]) (auto split: prod.splits)
qed

lemma ranked_stable:
  "filter (\<lambda>e. snd e = c) (sort_key (\<lambda>(w, count). - int count) (xs :: (string \<times> nat) list)) =
   filter (\<lambda>e. snd e = c) xs"
proof -
  have eq: "(\<lambda>e :: string \<times> nat. snd e = c) = (\<lambda>e. (case e of (w, count) \<Rightarrow> - int count) = - int c)"
    by (auto simp: fun_eq_iff)
  show ?thesis unfolding eq by (rule sort_key_stable)
qed

lemma WordCloud_kept:
  fixes input :: string
  defines "kept \<equiv> take 50 (sort_key (\<lambda>(w, count). - int count) (cloud_counts input))"
  shows "WordCloud input =
     map (\<lambda>(w, c). (w, font_size (snd (last kept)) (snd (hd kept)) c)) kept"
proof -
  have unf: "WordCloud input =
      (if length kept = 0 then []
       else map (\<lambda>(w, count).
            (w, if snd (hd kept) > snd (last kept)
                then 16 + ((of_nat count - of_nat (snd (last kept))) /
                           (of_nat (snd (hd kept)) - of_nat (snd (last kept)))) * (36 - 16)
                else if snd (hd kept) = snd (last kept) \<and> length kept > 0 then (16 + 36) / 2
                else 16))
        kept)"
    unfolding WordCloud_def Let_def wordCounts_spec kept_def [symmetric] by (rule refl)
  have srt: "sorted_wrt (\<lambda>a b. snd b \<le> snd a) kept"
    unfolding kept_def by (intro sorted_wrt_take ranked_sorted)
  show ?thesis
  proof (cases "kept = []")
    case True
    then show ?thesis unfolding unf by simp
  next
    case False
    then have "hd kept \<in> set kept" by simp
    then have le: "snd (last kept) \<le> snd (hd kept)"
      using sorted_desc_bounds [OF srt] by blast
    show ?thesis
      unfolding unf using le False by (auto simp: font_size_def)
  qed
qed

text \<open>
  C9, as stated: the tokens are the alphabetic runs of length at least 3 of the case-folded
  text. In the text "abc1 abc1" the letters abc form such a run twice, so the term abc
  would be kept; on the source the run is followed by a digit, no word boundary ends it,
  and the word cloud is empty.
\<close>

theorem WordCloud_alphabetic_run_counterexample:
  "alphabetic_runs (toLowerCase ''abc1 abc1'') = [''abc'', ''abc''] \<and> WordCloud ''abc1 abc1'' = []"
  by code_simp

text \<open>
  C9, amended: the tokens are the whole words of the case-folded text (maximal runs of
  letters, digits and underscores) that consist of the letters a to z only and have length
  at least 3. The terms are the tokens that are no stop words, counted by frequency and
  listed in first-seen order (\<open>cloud_counts\<close>). The word cloud is made of the first 50
  entries of a ranking of these terms that is a rearrangement of them, is ordered by
  descending count and keeps the terms of equal count in first-seen order. Each kept term
  gets the font size of the linear scale between 16, at the lowest kept count, and 36, at
  the highest kept count, in exact arithmetic; every font size lies between 16 and 36, and
  when all kept counts are equal every font size is the midpoint 26.
\<close>

theorem WordCloud_ranking:
  "\<exists>ranked.
      distinct ranked \<and> set ranked = set (cloud_counts input)
    \<and> sorted_wrt (\<lambda>a b. snd b \<le> snd a) ranked
    \<and> (\<forall>c. filter (\<lambda>e. snd e = c) ranked = filter (\<lambda>e. snd e = c) (cloud_counts input))
    \<and> WordCloud input =
        map (\<lambda>(w, c). (w, font_size (snd (last (take 50 ranked))) (snd (hd (take 50 ranked))) c))
          (take 50 ranked)
    \<and> length (WordCloud input) \<le> 50
    \<and> (\<forall>(w, fs) \<in> set (WordCloud input). 16 \<le> fs \<and> fs \<le> 36)
    \<and> ((\<forall>e \<in> set (take 50 ranked). snd e = snd (hd (take 50 ranked))) \<longrightarrow>
          (\<forall>(w, fs) \<in> set (WordCloud input). fs = 26))"
proof -
  define ranked where "ranked = sort_key (\<lambda>(w, count). - int count) (cloud_counts input)"
  define kept where "kept = take 50 ranked"
  have d: "distinct ranked" by (simp add: ranked_def distinct_cloud_counts)
  have st: "set ranked = set (cloud_counts input)" by (simp add: ranked_def)
  have srt: "sorted_wrt (\<lambda>a b. snd b \<le> snd a) ranked"
    unfolding ranked_def by (rule ranked_sorted)
  have stab: "\<forall>c. filter (\<lambda>e. snd e = c) ranked = filter (\<lambda>e. snd e = c) (cloud_counts input)"
    unfolding ranked_def by (simp add: ranked_stable)
  have wc: "WordCloud input =
      map (\<lambda>(w, c). (w, font_size (snd (last kept)) (snd (hd kept)) c)) kept"
    unfolding kept_def ranked_def by (rule WordCloud_kept)
  have len: "length (WordCloud input) \<le> 50" unfolding wc by (simp add: kept_def)
  have ksrt: "sorted_wrt (\<lambda>a b. snd b \<le> snd a) kept"
    unfolding kept_def by (intro sorted_wrt_take srt)
  have bounds: "\<forall>(w, fs) \<in> set (WordCloud input). 16 \<le> fs \<and> fs \<le> 36"
  proof -
    have "16 \<le> font_size (snd (last kept)) (snd (hd kept)) c \<and>
          font_size (snd (last kept)) (snd (hd kept)) c \<le> 36"
      if "(w, c) \<in> set kept" for w c
      using sorted_desc_bounds [OF ksrt that] by (intro font_size_bounds) simp_all
    then show ?thesis unfolding wc by auto
  qed
  have mid: "\<forall>(w, fs) \<in> set (WordCloud input). fs = 26"
    if eq: "\<forall>e \<in> set kept. snd e = snd (hd kept)"
  proof (cases "kept = []")
    case True
    then show ?thesis unfolding wc by simp
  next
    case False
    then have "last kept \<in> set kept" by simp
    then have "snd (last kept) = snd (hd kept)" using eq by blast
    then show ?thesis unfolding wc by (auto simp: font_size_def)
  qed
  show ?thesis
    using d st srt stab wc len bounds mid unfolding kept_def by blast
qed

theorem WordCloud_ranking_witness:
  "(''more'', 16) \<in> set (WordCloud ''Rain, rain and more RAIN: the sun'')
   \<and> (''rain'', 36) \<in> set (WordCloud ''Rain, rain and more RAIN: the sun'')
   \<and> length (WordCloud ''Rain, rain and more RAIN: the sun'') \<le> 50"
proof -
  have ev: "WordCloud ''Rain, rain and more RAIN: the sun'' =
      [(''rain'', 36), (''more'', 16), (''sun'', 16)]"
    by code_simp
  show ?thesis
    using WordCloud_ranking [of "''Rain, rain and more RAIN: the sun''"] ev by auto
qed

end
